theory Spec2Isabelle
  imports Main "HOL-Library.Char_ord" "HOL-Library.List_Lexorder" "HOL-Library.Product_Lexorder"
    "HOL-Library.AList"
begin

section \<open>Data model (src/types/index.ts)\<close>

text \<open>
  A rule value is \<^verbatim>\<open>string | number | boolean\<close>. The three runtime types are the three
  constructors, so the strict equality \<^verbatim>\<open>===\<close> of two values is the equality of the
  datatype: equal tag and equal payload. Numbers are modelled by their integer-valued
  fragment (\<open>int\<close>); fractions, \<^verbatim>\<open>NaN\<close> and the infinities are outside the model.
\<close>

datatype jsvalue = VString string | VNumber int | VBoolean bool

text \<open>\<^verbatim>\<open>typeof v\<close> for the three kinds of value.\<close>

fun typeof :: "jsvalue \<Rightarrow> string" where
  "typeof (VString s) = ''string''"
| "typeof (VNumber n) = ''number''"
| "typeof (VBoolean b) = ''boolean''"

text \<open>
  \<^verbatim>\<open>type RuleOperator = 'is' | 'is_not' | 'greater_than' | 'less_than'\<close>. With this type
  the \<^verbatim>\<open>default\<close> branch of the switch in \<^verbatim>\<open>evaluateRule\<close> is never taken.
\<close>

datatype RuleOperator = Is | Is_not | Greater_than | Less_than

text \<open>
  \<^verbatim>\<open>interface EdgeRule { id; condition; operator; value }\<close>. The fields \<^verbatim>\<open>id\<close> and
  \<^verbatim>\<open>value\<close> are named \<open>rule_id\<close> and \<open>rule_value\<close> here.
\<close>

record EdgeRule =
  rule_id :: string
  condition :: string
  operator :: RuleOperator
  rule_value :: jsvalue

text \<open>
  A node of the graph: the engine reads only its \<^verbatim>\<open>id\<close> (here \<open>node_id\<close>); \<open>label\<close> and
  \<open>description\<close> are the fields of \<^verbatim>\<open>FeatureNodeData\<close>.
\<close>

record FeatureNode =
  node_id :: string
  label :: string
  description :: "string option"

text \<open>
  \<^verbatim>\<open>interface FeatureEdge extends Edge { data?: { rules?: EdgeRule[] } }\<close>: both \<^verbatim>\<open>data\<close>
  and \<^verbatim>\<open>data.rules\<close> are optional. The field \<^verbatim>\<open>id\<close> is named \<open>edge_id\<close>.
\<close>

record EdgeData =
  rules :: "EdgeRule list option"

record FeatureEdge =
  edge_id :: string
  source :: string
  target :: string
  data :: "EdgeData option"

text \<open>\<^verbatim>\<open>interface SimulationState { [conditionId: string]: string | number | boolean }\<close>\<close>

type_synonym SimulationState = "string \<rightharpoonup> jsvalue"

section \<open>Rule evaluation\<close>

text \<open>
  The simulation state is a plain object (\<^verbatim>\<open>useState<SimulationState>({})\<close>, updated with
  object spreads), and \<^verbatim>\<open>state[rule.condition]\<close> is a property read on it. The map
  \<open>SimulationState\<close> holds the own properties. A read of a name that is not an own
  property goes on to \<^verbatim>\<open>Object.prototype\<close>: for the names below it finds a member of the
  prototype, which is a function (for \<^verbatim>\<open>__proto__\<close> the prototype object itself), and only
  for every other name it is \<^verbatim>\<open>undefined\<close>.
\<close>

definition object_prototype_names :: "string list" where
  "object_prototype_names =
     [''constructor'', ''__defineGetter__'', ''__defineSetter__'', ''hasOwnProperty'',
      ''__lookupGetter__'', ''__lookupSetter__'', ''isPrototypeOf'', ''propertyIsEnumerable'',
      ''toString'', ''valueOf'', ''__proto__'', ''toLocaleString'']"

datatype property = Undefined | Own jsvalue | Inherited

definition get_property :: "SimulationState \<Rightarrow> string \<Rightarrow> property" where
  "get_property state k =
     (case state k of
        Some v \<Rightarrow> Own v
      | None \<Rightarrow> if k \<in> set object_prototype_names then Inherited else Undefined)"

text \<open>
  \<^verbatim>\<open>evaluateRule\<close>: when the property read gives \<^verbatim>\<open>undefined\<close> the rule passes; otherwise
  the operator decides. An inherited member is a function or an object: it is not
  strictly equal to a string, number or boolean, and its \<^verbatim>\<open>typeof\<close> is not \<^verbatim>\<open>number\<close>. The
  source has no \<^verbatim>\<open>throw\<close>, so the model has no error branch.
\<close>

definition evaluateRule :: "EdgeRule \<Rightarrow> SimulationState \<Rightarrow> bool" where
  "evaluateRule rule state =
     (case get_property state (condition rule) of
        Undefined \<Rightarrow> True
      | Own currentValue \<Rightarrow>
          (case operator rule of
             Is \<Rightarrow> currentValue = rule_value rule
           | Is_not \<Rightarrow> currentValue \<noteq> rule_value rule
           | Greater_than \<Rightarrow>
               (case (currentValue, rule_value rule) of
                  (VNumber c, VNumber v) \<Rightarrow> c > v
                | _ \<Rightarrow> False)
           | Less_than \<Rightarrow>
               (case (currentValue, rule_value rule) of
                  (VNumber c, VNumber v) \<Rightarrow> c < v
                | _ \<Rightarrow> False))
      | Inherited \<Rightarrow>
          (case operator rule of
             Is \<Rightarrow> False
           | Is_not \<Rightarrow> True
           | Greater_than \<Rightarrow> False
           | Less_than \<Rightarrow> False))"

text \<open>\<^verbatim>\<open>const rules = edge.data?.rules || []\<close>\<close>

definition edge_rules :: "FeatureEdge \<Rightarrow> EdgeRule list" where
  "edge_rules edge =
     (case data edge of
        None \<Rightarrow> []
      | Some d \<Rightarrow> (case rules d of None \<Rightarrow> [] | Some rs \<Rightarrow> rs))"

text \<open>
  \<^verbatim>\<open>evaluateEdgeRules\<close>: the early return on an empty list, then \<^verbatim>\<open>rules.every(...)\<close>.
\<close>

definition evaluateEdgeRules :: "FeatureEdge \<Rightarrow> SimulationState \<Rightarrow> bool" where
  "evaluateEdgeRules edge state =
     (let rs = edge_rules edge
      in if length rs = 0 then True else list_all (\<lambda>rule. evaluateRule rule state) rs)"

section \<open>Flow evaluation\<close>

text \<open>\<^verbatim>\<open>interface FlowEvaluationResult { reachableNodes: Set<string>; validEdges: Map<string, boolean> }\<close>\<close>

record FlowEvaluationResult =
  reachableNodes :: "string set"
  validEdges :: "string \<rightharpoonup> bool"

text \<open>
  The variables that the loop of \<^verbatim>\<open>evaluateFlow\<close> updates: the two parts of the result,
  the FIFO \<open>queue\<close> and the set \<open>visited\<close>.
\<close>

record flow_state = FlowEvaluationResult +
  queue :: "string list"
  visited :: "string set"

text \<open>\<^verbatim>\<open>const nodesWithIncoming = new Set(edges.map(e => e.target))\<close>\<close>

definition nodesWithIncoming :: "FeatureEdge list \<Rightarrow> string set" where
  "nodesWithIncoming edges = set (map target edges)"

text \<open>\<^verbatim>\<open>const rootNodes = nodes.filter(n => !nodesWithIncoming.has(n.id))\<close>\<close>

definition rootNodes :: "FeatureNode list \<Rightarrow> FeatureEdge list \<Rightarrow> FeatureNode list" where
  "rootNodes nodes edges = filter (\<lambda>n. node_id n \<notin> nodesWithIncoming edges) nodes"

text \<open>
  The adjacency map \<^verbatim>\<open>outgoingEdges\<close>: one step of the loop that builds it creates the
  entry of \<^verbatim>\<open>edge.source\<close> when it is missing and pushes the edge onto it.
\<close>

definition add_outgoing ::
  "FeatureEdge \<Rightarrow> (string \<rightharpoonup> FeatureEdge list) \<Rightarrow> (string \<rightharpoonup> FeatureEdge list)" where
  "add_outgoing edge m =
     (let m1 = (if m (source edge) = None then m(source edge \<mapsto> []) else m)
      in case m1 (source edge) of
           None \<Rightarrow> m1
         | Some es \<Rightarrow> m1(source edge \<mapsto> es @ [edge]))"

definition outgoingEdges :: "FeatureEdge list \<Rightarrow> (string \<rightharpoonup> FeatureEdge list)" where
  "outgoingEdges edges = fold add_outgoing edges Map.empty"

text \<open>\<^verbatim>\<open>const nodeEdges = outgoingEdges.get(nodeId) || []\<close>\<close>

definition nodeEdges_of :: "FeatureEdge list \<Rightarrow> string \<Rightarrow> FeatureEdge list" where
  "nodeEdges_of edges nodeId =
     (case outgoingEdges edges nodeId of None \<Rightarrow> [] | Some es \<Rightarrow> es)"

text \<open>The body of the inner \<^verbatim>\<open>for (const edge of nodeEdges)\<close> loop.\<close>

definition process_edge :: "SimulationState \<Rightarrow> FeatureEdge \<Rightarrow> flow_state \<Rightarrow> flow_state" where
  "process_edge state edge s =
     (let sourceReachable = (source edge \<in> reachableNodes s);
          rulesPass = evaluateEdgeRules edge state;
          edgeValid = (sourceReachable \<and> rulesPass);
          s1 = s\<lparr>validEdges := (validEdges s)(edge_id edge \<mapsto> edgeValid)\<rparr>
      in if edgeValid
         then s1\<lparr>reachableNodes := insert (target edge) (reachableNodes s1),
                 queue := queue s1 @ [target edge]\<rparr>
         else s1)"

text \<open>
  One iteration of \<^verbatim>\<open>while (queue.length > 0)\<close>: shift the queue, skip a visited node,
  otherwise mark it visited and run the inner loop over its outgoing edges.
\<close>

definition bfs_body :: "FeatureEdge list \<Rightarrow> SimulationState \<Rightarrow> flow_state \<Rightarrow> flow_state" where
  "bfs_body edges state s =
     (case queue s of
        [] \<Rightarrow> s
      | nodeId # rest \<Rightarrow>
          if nodeId \<in> visited s then s\<lparr>queue := rest\<rparr>
          else fold (process_edge state) (nodeEdges_of edges nodeId)
                 (s\<lparr>queue := rest, visited := insert nodeId (visited s)\<rparr>))"

text \<open>The adjacency map holds, for each source, its edges in input order.\<close>

lemma add_outgoing_lookup:
  "(case add_outgoing e m k of None \<Rightarrow> [] | Some es \<Rightarrow> es) =
   (case m k of None \<Rightarrow> [] | Some es \<Rightarrow> es) @ (if source e = k then [e] else [])"
  by (simp add: add_outgoing_def Let_def split: option.splits)

lemma fold_add_outgoing_lookup:
  "(case fold add_outgoing es m k of None \<Rightarrow> [] | Some xs \<Rightarrow> xs) =
   (case m k of None \<Rightarrow> [] | Some xs \<Rightarrow> xs) @ filter (\<lambda>e. source e = k) es"
proof (induction es arbitrary: m)
  case Nil
  show ?case by simp
next
  case (Cons e es)
  show ?case
    using Cons.IH [of "add_outgoing e m"] add_outgoing_lookup [of e m k]
    by simp
qed

lemma nodeEdges_of_filter:
  "nodeEdges_of edges nodeId = filter (\<lambda>e. source e = nodeId) edges"
  using fold_add_outgoing_lookup [of edges Map.empty nodeId]
  by (simp add: nodeEdges_of_def outgoingEdges_def)

lemma process_edge_visited: "visited (process_edge state e s) = visited s"
  by (simp add: process_edge_def Let_def)

lemma fold_process_edge_visited: "visited (fold (process_edge state) es s) = visited s"
  by (induction es arbitrary: s) (simp_all add: process_edge_visited)

lemma bfs_body_decreases:
  assumes "queue s \<noteq> []"
  shows "card (source ` set edges - visited (bfs_body edges state s))
           < card (source ` set edges - visited s)
         \<or> (card (source ` set edges - visited (bfs_body edges state s))
              = card (source ` set edges - visited s)
            \<and> length (queue (bfs_body edges state s)) < length (queue s))"
proof -
  from assms obtain nodeId rest where q: "queue s = nodeId # rest"
    by (cases "queue s") auto
  show ?thesis
  proof (cases "nodeId \<in> visited s")
    case True
    with q show ?thesis by (simp add: bfs_body_def)
  next
    case nv: False
    show ?thesis
    proof (cases "nodeEdges_of edges nodeId = []")
      case True
      with q nv have "bfs_body edges state s
          = s\<lparr>queue := rest, visited := insert nodeId (visited s)\<rparr>"
        by (simp add: bfs_body_def)
      moreover from True have "nodeId \<notin> source ` set edges"
        by (auto simp: nodeEdges_of_filter filter_empty_conv)
      ultimately show ?thesis using q by simp
    next
      case False
      then have src: "nodeId \<in> source ` set edges"
        by (auto simp: nodeEdges_of_filter filter_empty_conv)
      from q nv have "visited (bfs_body edges state s) = insert nodeId (visited s)"
        by (simp add: bfs_body_def fold_process_edge_visited)
      moreover have "source ` set edges - insert nodeId (visited s)
          \<subset> source ` set edges - visited s"
        using src nv by auto
      then have "card (source ` set edges - insert nodeId (visited s))
          < card (source ` set edges - visited s)"
        by (intro psubset_card_mono) auto
      ultimately show ?thesis by simp
    qed
  qed
qed

text \<open>
  The \<^verbatim>\<open>while\<close> loop. It terminates on every state: an iteration either visits a
  source of some edge that was not visited before, or leaves the visited sources as they
  are and shortens the queue.
\<close>

function bfs :: "FeatureEdge list \<Rightarrow> SimulationState \<Rightarrow> flow_state \<Rightarrow> flow_state" where
  "bfs edges state s = (if queue s = [] then s else bfs edges state (bfs_body edges state s))"
  by pat_completeness auto
termination
proof (relation "measures [\<lambda>(edges, state, s). card (source ` set edges - visited s),
                           \<lambda>(edges, state, s). length (queue s)]")
  show "wf (measures [\<lambda>(edges, state, s). card (source ` set edges - visited s),
                      \<lambda>(edges, state, s). length (queue s)])"
    by simp
next
  fix edges :: "FeatureEdge list" and state :: SimulationState and s :: flow_state
  assume "queue s \<noteq> []"
  then show "((edges, state, bfs_body edges state s), (edges, state, s))
      \<in> measures [\<lambda>(edges, state, s). card (source ` set edges - visited s),
                   \<lambda>(edges, state, s). length (queue s)]"
    using bfs_body_decreases [of s edges state] by auto
qed

declare bfs.simps [simp del]

text \<open>The last loop: \<^verbatim>\<open>if (!validEdges.has(edge.id)) validEdges.set(edge.id, false)\<close>.\<close>

definition mark_unvisited :: "FeatureEdge \<Rightarrow> (string \<rightharpoonup> bool) \<Rightarrow> (string \<rightharpoonup> bool)" where
  "mark_unvisited edge m = (if m (edge_id edge) = None then m(edge_id edge \<mapsto> False) else m)"

text \<open>
  The state before the \<^verbatim>\<open>while\<close> loop: the root ids are reachable and queued, nothing is
  visited and no edge has an entry.
\<close>

definition initial_state :: "FeatureNode list \<Rightarrow> FeatureEdge list \<Rightarrow> flow_state" where
  "initial_state nodes edges =
     \<lparr>reachableNodes = fold (\<lambda>root r. insert (node_id root) r) (rootNodes nodes edges) {},
      validEdges = Map.empty,
      queue = map node_id (rootNodes nodes edges),
      visited = {}\<rparr>"

definition evaluateFlow ::
  "FeatureNode list \<Rightarrow> FeatureEdge list \<Rightarrow> SimulationState \<Rightarrow> FlowEvaluationResult" where
  "evaluateFlow nodes edges state =
     (let s = bfs edges state (initial_state nodes edges)
      in \<lparr>reachableNodes = reachableNodes s,
          validEdges = fold mark_unvisited edges (validEdges s)\<rparr>)"

section \<open>Condition discovery\<close>

text \<open>\<^verbatim>\<open>type ConditionType = 'boolean' | 'enum' | 'number'\<close>\<close>

datatype ConditionType = Boolean | Enum | Number

text \<open>
  \<^verbatim>\<open>interface ConditionSchema { name; type; options }\<close>; the field \<^verbatim>\<open>type\<close> is named
  \<open>ctype\<close>. The options are values, not their string forms.
\<close>

record ConditionSchema =
  name :: string
  ctype :: ConditionType
  options :: "jsvalue list"

text \<open>
  \<^verbatim>\<open>String(v)\<close>: a string is itself and a boolean is \<^verbatim>\<open>true\<close> or \<^verbatim>\<open>false\<close>. The string form
  of a number is made by the runtime (decimal digits for an integer of moderate size,
  exponent notation from \<^verbatim>\<open>1e21\<close> on); it is the parameter \<open>numstr\<close>.
\<close>

fun String_js :: "(int \<Rightarrow> string) \<Rightarrow> jsvalue \<Rightarrow> string" where
  "String_js numstr (VString s) = s"
| "String_js numstr (VNumber n) = numstr n"
| "String_js numstr (VBoolean b) = (if b then ''true'' else ''false'')"

text \<open>
  \<^verbatim>\<open>Array.prototype.sort(cmp)\<close> is a stable sort: elements that compare equal keep their
  order. For a comparator that is a total preorder its result is the one that a stable
  insertion sort gives, which is how it is written here.
\<close>

fun insert_sorted :: "('a \<Rightarrow> 'a \<Rightarrow> int) \<Rightarrow> 'a \<Rightarrow> 'a list \<Rightarrow> 'a list" where
  "insert_sorted cmp x [] = [x]"
| "insert_sorted cmp x (y # ys) =
     (if cmp x y \<le> 0 then x # y # ys else y # insert_sorted cmp x ys)"

definition array_sort :: "('a \<Rightarrow> 'a \<Rightarrow> int) \<Rightarrow> 'a list \<Rightarrow> 'a list" where
  "array_sort cmp xs = foldr (insert_sorted cmp) xs []"

text \<open>
  A JavaScript \<^verbatim>\<open>Set\<close> keeps its elements in insertion order: it is a list without
  duplicates, and \<^verbatim>\<open>add\<close> appends a value that is not yet a member.
\<close>

definition set_add :: "'a \<Rightarrow> 'a list \<Rightarrow> 'a list" where
  "set_add x xs = (if x \<in> set xs then xs else xs @ [x])"

text \<open>
  \<^verbatim>\<open>conditionMap\<close> is a \<^verbatim>\<open>Map\<close> from condition name to the set of its values, in insertion
  order of the names: an association list, where \<open>AList.update\<close> keeps the position of a
  key that is present and appends one that is not. The inner loop body creates the entry
  of \<^verbatim>\<open>rule.condition\<close> when it is missing and adds \<^verbatim>\<open>rule.value\<close> to it.
\<close>

definition add_rule_value ::
  "EdgeRule \<Rightarrow> (string \<times> jsvalue list) list \<Rightarrow> (string \<times> jsvalue list) list" where
  "add_rule_value rule m =
     (let m1 = (if map_of m (condition rule) = None then AList.update (condition rule) [] m else m)
      in case map_of m1 (condition rule) of
           None \<Rightarrow> m1
         | Some vs \<Rightarrow> AList.update (condition rule) (set_add (rule_value rule) vs) m1)"

definition conditionMap :: "FeatureEdge list \<Rightarrow> (string \<times> jsvalue list) list" where
  "conditionMap edges = fold (\<lambda>edge m. fold add_rule_value (edge_rules edge) m) edges []"

text \<open>The inference of the type from \<^verbatim>\<open>valueArray\<close>.\<close>

definition infer_type :: "jsvalue list \<Rightarrow> ConditionType" where
  "infer_type valueArray =
     (if list_all (\<lambda>v. typeof v = ''boolean'') valueArray then Boolean
      else if list_all (\<lambda>v. typeof v = ''number'') valueArray then Number
      else Enum)"

text \<open>
  \<^verbatim>\<open>String.prototype.localeCompare\<close> belongs to the runtime: \<^verbatim>\<open>a.localeCompare(b)\<close> is
  negative, zero or positive as \<open>a\<close> comes before, with or after \<open>b\<close> in the collation of
  the host's locale, which is not the order of the character codes (it puts \<^verbatim>\<open>a\<close> before
  \<^verbatim>\<open>B\<close>). It is the parameter \<open>localeCompare\<close> of the two definitions that sort.
\<close>

definition make_schema ::
  "(string \<Rightarrow> string \<Rightarrow> int) \<Rightarrow> (int \<Rightarrow> string) \<Rightarrow> string \<times> jsvalue list \<Rightarrow> ConditionSchema" where
  "make_schema localeCompare numstr entry =
     (case entry of (nm, valueArray) \<Rightarrow>
        \<lparr>name = nm,
         ctype = infer_type valueArray,
         options = array_sort
           (\<lambda>a b. localeCompare (String_js numstr a) (String_js numstr b)) valueArray\<rparr>)"

definition discoverConditions ::
  "(string \<Rightarrow> string \<Rightarrow> int) \<Rightarrow> (int \<Rightarrow> string) \<Rightarrow> FeatureEdge list \<Rightarrow> ConditionSchema list" where
  "discoverConditions localeCompare numstr edges =
     array_sort (\<lambda>a b. localeCompare (name a) (name b))
       (map (make_schema localeCompare numstr) (conditionMap edges))"

section \<open>Ancestor trace (the \<^verbatim>\<open>traceHighlight\<close> memo of the flow-graph hook)\<close>

record TraceResult =
  highlightedNodes :: "string set"
  highlightedEdges :: "string set"

record trace_state = TraceResult +
  trace_queue :: "string list"

text \<open>The map \<^verbatim>\<open>incomingEdges\<close>, built like \<^verbatim>\<open>outgoingEdges\<close> but keyed by the target.\<close>

definition add_incoming ::
  "FeatureEdge \<Rightarrow> (string \<rightharpoonup> FeatureEdge list) \<Rightarrow> (string \<rightharpoonup> FeatureEdge list)" where
  "add_incoming edge m =
     (let m1 = (if m (target edge) = None then m(target edge \<mapsto> []) else m)
      in case m1 (target edge) of
           None \<Rightarrow> m1
         | Some es \<Rightarrow> m1(target edge \<mapsto> es @ [edge]))"

definition incomingEdges :: "FeatureEdge list \<Rightarrow> (string \<rightharpoonup> FeatureEdge list)" where
  "incomingEdges edges = fold add_incoming edges Map.empty"

text \<open>\<^verbatim>\<open>const incoming = incomingEdges.get(nodeId) || []\<close>\<close>

definition incoming_of :: "FeatureEdge list \<Rightarrow> string \<Rightarrow> FeatureEdge list" where
  "incoming_of edges nodeId =
     (case incomingEdges edges nodeId of None \<Rightarrow> [] | Some es \<Rightarrow> es)"

text \<open>The body of \<^verbatim>\<open>for (const edge of incoming)\<close>.\<close>

definition trace_edge :: "FeatureEdge \<Rightarrow> trace_state \<Rightarrow> trace_state" where
  "trace_edge edge t =
     (let t1 = t\<lparr>highlightedEdges := insert (edge_id edge) (highlightedEdges t)\<rparr>
      in if source edge \<notin> highlightedNodes t1
         then t1\<lparr>highlightedNodes := insert (source edge) (highlightedNodes t1),
                 trace_queue := trace_queue t1 @ [source edge]\<rparr>
         else t1)"

text \<open>One iteration of the backward \<^verbatim>\<open>while (queue.length > 0)\<close> loop.\<close>

definition trace_body :: "FeatureEdge list \<Rightarrow> trace_state \<Rightarrow> trace_state" where
  "trace_body edges t =
     (case trace_queue t of
        [] \<Rightarrow> t
      | nodeId # rest \<Rightarrow> fold trace_edge (incoming_of edges nodeId) (t\<lparr>trace_queue := rest\<rparr>))"

lemma add_incoming_lookup:
  "(case add_incoming e m k of None \<Rightarrow> [] | Some es \<Rightarrow> es) =
   (case m k of None \<Rightarrow> [] | Some es \<Rightarrow> es) @ (if target e = k then [e] else [])"
  by (simp add: add_incoming_def Let_def split: option.splits)

lemma fold_add_incoming_lookup:
  "(case fold add_incoming es m k of None \<Rightarrow> [] | Some xs \<Rightarrow> xs) =
   (case m k of None \<Rightarrow> [] | Some xs \<Rightarrow> xs) @ filter (\<lambda>e. target e = k) es"
proof (induction es arbitrary: m)
  case Nil
  show ?case by simp
next
  case (Cons e es)
  show ?case
    using Cons.IH [of "add_incoming e m"] add_incoming_lookup [of e m k]
    by simp
qed

lemma incoming_of_filter:
  "incoming_of edges nodeId = filter (\<lambda>e. target e = nodeId) edges"
  using fold_add_incoming_lookup [of edges Map.empty nodeId]
  by (simp add: incoming_of_def incomingEdges_def)

lemma trace_edge_nodes:
  "highlightedNodes (trace_edge e t) = insert (source e) (highlightedNodes t)"
  by (auto simp: trace_edge_def Let_def)

lemma fold_trace_edge_nodes:
  "highlightedNodes (fold trace_edge es t) = highlightedNodes t \<union> source ` set es"
  by (induction es arbitrary: t) (auto simp: trace_edge_nodes)

lemma fold_trace_edge_queue_same:
  "source ` set es \<subseteq> highlightedNodes t \<Longrightarrow>
   trace_queue (fold trace_edge es t) = trace_queue t"
proof (induction es arbitrary: t)
  case Nil
  show ?case by simp
next
  case (Cons e es)
  from Cons.prems have "trace_edge e t = t\<lparr>highlightedEdges := insert (edge_id e) (highlightedEdges t)\<rparr>"
    by (simp add: trace_edge_def Let_def)
  with Cons.IH [of "trace_edge e t"] Cons.prems show ?case by simp
qed

lemma trace_body_decreases:
  assumes "trace_queue t \<noteq> []"
  shows "card (source ` set edges - highlightedNodes (trace_body edges t))
           < card (source ` set edges - highlightedNodes t)
         \<or> (card (source ` set edges - highlightedNodes (trace_body edges t))
              = card (source ` set edges - highlightedNodes t)
            \<and> length (trace_queue (trace_body edges t)) < length (trace_queue t))"
proof -
  from assms obtain nodeId rest where q: "trace_queue t = nodeId # rest"
    by (cases "trace_queue t") auto
  let ?es = "filter (\<lambda>e. target e = nodeId) edges"
  let ?t0 = "t\<lparr>trace_queue := rest\<rparr>"
  have body: "trace_body edges t = fold trace_edge ?es ?t0"
    using q by (simp add: trace_body_def incoming_of_filter)
  have nodes: "highlightedNodes (trace_body edges t) = highlightedNodes t \<union> source ` set ?es"
    unfolding body by (simp add: fold_trace_edge_nodes)
  show ?thesis
  proof (cases "source ` set ?es \<subseteq> highlightedNodes t")
    case True
    then have "trace_queue (fold trace_edge ?es ?t0) = trace_queue ?t0"
      by (intro fold_trace_edge_queue_same) simp
    moreover from True have "highlightedNodes t \<union> source ` set ?es = highlightedNodes t"
      by blast
    ultimately show ?thesis using q nodes body by simp
  next
    case False
    then have "source ` set edges - (highlightedNodes t \<union> source ` set ?es)
        \<subset> source ` set edges - highlightedNodes t"
      by auto
    then have "card (source ` set edges - (highlightedNodes t \<union> source ` set ?es))
        < card (source ` set edges - highlightedNodes t)"
      by (intro psubset_card_mono) auto
    with nodes show ?thesis by simp
  qed
qed

text \<open>
  The backward loop. An iteration either highlights a source that was not highlighted
  before, or leaves the highlighted nodes as they are and shortens the queue.
\<close>

function trace_loop :: "FeatureEdge list \<Rightarrow> trace_state \<Rightarrow> trace_state" where
  "trace_loop edges t = (if trace_queue t = [] then t else trace_loop edges (trace_body edges t))"
  by pat_completeness auto
termination
proof (relation "measures [\<lambda>(edges, t). card (source ` set edges - highlightedNodes t),
                           \<lambda>(edges, t). length (trace_queue t)]")
  show "wf (measures [\<lambda>(edges, t). card (source ` set edges - highlightedNodes t),
                      \<lambda>(edges, t). length (trace_queue t)])"
    by simp
next
  fix edges :: "FeatureEdge list" and t :: trace_state
  assume "trace_queue t \<noteq> []"
  then show "((edges, trace_body edges t), (edges, t))
      \<in> measures [\<lambda>(edges, t). card (source ` set edges - highlightedNodes t),
                   \<lambda>(edges, t). length (trace_queue t)]"
    using trace_body_decreases [of t edges] by auto
qed

declare trace_loop.simps [simp del]

text \<open>
  The memo: empty sets unless trace mode is on and a node is hovered; \<^verbatim>\<open>!hoveredNodeId\<close>
  holds for \<^verbatim>\<open>null\<close> and for the empty string. Otherwise the loop runs from the hovered
  node. Its inputs are the three dependencies \<^verbatim>\<open>[isTraceMode, hoveredNodeId, edges]\<close>.
\<close>

definition traceHighlight :: "bool \<Rightarrow> string option \<Rightarrow> FeatureEdge list \<Rightarrow> TraceResult" where
  "traceHighlight isTraceMode hoveredNodeId edges =
     (case hoveredNodeId of
        None \<Rightarrow> \<lparr>highlightedNodes = {}, highlightedEdges = {}\<rparr>
      | Some h \<Rightarrow>
          if \<not> isTraceMode \<or> h = [] then \<lparr>highlightedNodes = {}, highlightedEdges = {}\<rparr>
          else (let t = trace_loop edges
                          \<lparr>highlightedNodes = {h}, highlightedEdges = {}, trace_queue = [h]\<rparr>
                in \<lparr>highlightedNodes = highlightedNodes t,
                    highlightedEdges = highlightedEdges t\<rparr>))"

section \<open>Invariants, auxiliary notions and example graphs\<close>

subsection \<open>Invariants of the breadth-first loop\<close>

text \<open>
  \<open>reach_inv\<close>: queued and visited nodes are reachable, every reachable node is visited or
  still queued, and the reachable nodes are the seeds \<open>R0\<close> together with the targets of
  the rule-satisfied edges that leave a visited node.
\<close>

definition reach_inv :: "string set \<Rightarrow> FeatureEdge list \<Rightarrow> SimulationState \<Rightarrow> flow_state \<Rightarrow> bool" where
  "reach_inv R0 edges state s \<longleftrightarrow>
     set (queue s) \<subseteq> reachableNodes s \<and>
     visited s \<subseteq> reachableNodes s \<and>
     reachableNodes s \<subseteq> visited s \<union> set (queue s) \<and>
     reachableNodes s =
       R0 \<union> {target e |e. e \<in> set edges \<and> source e \<in> visited s \<and> evaluateEdgeRules e state}"

text \<open>
  \<open>valid_inv\<close>: an edge has an entry exactly when its source has been visited, the entry
  is the verdict of its rules, and no other key has an entry.
\<close>

definition valid_inv :: "FeatureEdge list \<Rightarrow> SimulationState \<Rightarrow> flow_state \<Rightarrow> bool" where
  "valid_inv edges state s \<longleftrightarrow>
     (\<forall>e\<in>set edges. validEdges s (edge_id e) =
        (if source e \<in> visited s then Some (evaluateEdgeRules e state) else None)) \<and>
     dom (validEdges s) \<subseteq> edge_id ` set edges"

subsection \<open>Edges without a rule list\<close>

text \<open>
  \<open>rules_absent\<close>: \<^verbatim>\<open>edge.data\<close> is undefined, or \<^verbatim>\<open>edge.data.rules\<close> is. \<open>with_empty_rules\<close>
  gives such an edge the empty rule list and leaves every other edge as it is.
\<close>

definition rules_absent :: "FeatureEdge \<Rightarrow> bool" where
  "rules_absent e = (case data e of None \<Rightarrow> True | Some d \<Rightarrow> rules d = None)"

definition with_empty_rules :: "FeatureEdge \<Rightarrow> FeatureEdge" where
  "with_empty_rules e = (if rules_absent e then e\<lparr>data := Some \<lparr>rules = Some []\<rparr>\<rparr> else e)"

subsection \<open>Condition discovery\<close>

text \<open>
  \<open>all_rules\<close>: the rules of all edges. \<open>cmap_inv\<close>: after the rules \<open>rs\<close> have been added,
  the keys of \<^verbatim>\<open>conditionMap\<close> are the condition names of \<open>rs\<close>, each once, and the entry of
  a name holds the values of its rules, each once.
\<close>

definition all_rules :: "FeatureEdge list \<Rightarrow> EdgeRule list" where
  "all_rules edges = concat (map edge_rules edges)"

definition cmap_inv :: "EdgeRule list \<Rightarrow> (string \<times> jsvalue list) list \<Rightarrow> bool" where
  "cmap_inv rs m \<longleftrightarrow>
     distinct (map fst m) \<and>
     fst ` set m = condition ` set rs \<and>
     (\<forall>k vs. map_of m k = Some vs \<longrightarrow>
        distinct vs \<and> set vs = {rule_value r |r. r \<in> set rs \<and> condition r = k})"

subsection \<open>Ancestor trace\<close>

text \<open>
  \<open>edge_rel\<close>: the pairs of source and target of the edges. \<open>trace_inv\<close>: the hovered node
  \<open>h\<close> is highlighted, every highlighted node reaches \<open>h\<close>, queued nodes are highlighted,
  the incoming edges of a highlighted node that is no longer queued are highlighted
  together with their sources, and every highlighted edge enters a highlighted node.
  \<open>edge_shape\<close>: what is left of an edge without its rules.
\<close>

definition edge_rel :: "FeatureEdge list \<Rightarrow> (string \<times> string) set" where
  "edge_rel edges = (\<lambda>e. (source e, target e)) ` set edges"

definition trace_inv :: "string \<Rightarrow> FeatureEdge list \<Rightarrow> trace_state \<Rightarrow> bool" where
  "trace_inv h edges t \<longleftrightarrow>
     h \<in> highlightedNodes t \<and>
     highlightedNodes t \<subseteq> {n. (n, h) \<in> (edge_rel edges)\<^sup>*} \<and>
     set (trace_queue t) \<subseteq> highlightedNodes t \<and>
     (\<forall>e\<in>set edges. target e \<in> highlightedNodes t \<and> target e \<notin> set (trace_queue t) \<longrightarrow>
        source e \<in> highlightedNodes t \<and> edge_id e \<in> highlightedEdges t) \<and>
     highlightedEdges t \<subseteq> {edge_id e |e. e \<in> set edges \<and> target e \<in> highlightedNodes t}"

definition edge_shape :: "FeatureEdge \<Rightarrow> string \<times> string \<times> string" where
  "edge_shape e = (edge_id e, source e, target e)"

subsection \<open>Example graphs\<close>

text \<open>
  The graphs of the examples: a node with a given id, an edge without \<^verbatim>\<open>data\<close>, an edge
  with a rule list, and the rule \<^verbatim>\<open>role is "admin"\<close>.
\<close>

definition node_of :: "string \<Rightarrow> FeatureNode" where
  "node_of i = \<lparr>node_id = i, label = i, description = None\<rparr>"

definition plain_edge :: "string \<Rightarrow> string \<Rightarrow> string \<Rightarrow> FeatureEdge" where
  "plain_edge i s t = \<lparr>edge_id = i, source = s, target = t, data = None\<rparr>"

definition ruled_edge :: "string \<Rightarrow> string \<Rightarrow> string \<Rightarrow> EdgeRule list \<Rightarrow> FeatureEdge" where
  "ruled_edge i s t rs = \<lparr>edge_id = i, source = s, target = t, data = Some \<lparr>rules = Some rs\<rparr>\<rparr>"

definition role_is_admin :: EdgeRule where
  "role_is_admin =
     \<lparr>rule_id = ''r1'', condition = ''role'', operator = Is, rule_value = VString ''admin''\<rparr>"

text \<open>A rule \<^verbatim>\<open>c is v\<close> for the examples of the condition discovery.\<close>

definition rule_on :: "string \<Rightarrow> jsvalue \<Rightarrow> EdgeRule" where
  "rule_on c v = \<lparr>rule_id = ''r'', condition = c, operator = Is, rule_value = v\<rparr>"

text \<open>
  The examples need a number formatting and a comparator. \<open>decimal\<close> is the decimal
  numeral of an integer, which is what \<^verbatim>\<open>String(n)\<close> gives for the integers of the
  examples (and for every integer below \<^verbatim>\<open>1e21\<close> in absolute value).
\<close>

definition digit_char :: "nat \<Rightarrow> char" where
  "digit_char d = ''0123456789'' ! d"

fun nat_to_string :: "nat \<Rightarrow> string" where
  "nat_to_string n =
     (if n < 10 then [digit_char n] else nat_to_string (n div 10) @ [digit_char (n mod 10)])"

declare nat_to_string.simps [simp del]

definition decimal :: "int \<Rightarrow> string" where
  "decimal n =
     (if n < 0 then CHR ''-'' # nat_to_string (nat (- n)) else nat_to_string (nat n))"

text \<open>
  \<open>collate\<close> is a comparator of the kind that \<^verbatim>\<open>localeCompare\<close> is: strings are compared
  without regard to the case of the letters first, and among strings that differ only in
  case the lowercase letter comes first. So it orders a, A, b, B and puts \<^verbatim>\<open>is_author\<close>
  before \<^verbatim>\<open>isAdmin\<close>. It stands for the runtime's comparator in the examples only; the
  general statements hold for every comparator that is a total preorder.
\<close>

definition lower_char :: "char \<Rightarrow> char" where
  "lower_char c =
     (case map_of (zip ''ABCDEFGHIJKLMNOPQRSTUVWXYZ'' ''abcdefghijklmnopqrstuvwxyz'') c of
        Some l \<Rightarrow> l
      | None \<Rightarrow> c)"

definition is_upper :: "char \<Rightarrow> bool" where
  "is_upper c = (c \<in> set ''ABCDEFGHIJKLMNOPQRSTUVWXYZ'')"

definition collate_key :: "string \<Rightarrow> string \<times> bool list" where
  "collate_key s = (map lower_char s, map is_upper s)"

definition collate :: "string \<Rightarrow> string \<Rightarrow> int" where
  "collate a b =
     (if collate_key a < collate_key b then - 1
      else if collate_key a = collate_key b then 0 else 1)"

section \<open>Properties of the flow evaluation\<close>

subsection \<open>The inner loop over the outgoing edges of a reachable node\<close>

lemma process_edge_reach:
  "source e \<in> reachableNodes s \<Longrightarrow>
   process_edge state e s =
     (if evaluateEdgeRules e state
      then s\<lparr>validEdges := (validEdges s)(edge_id e \<mapsto> True),
             reachableNodes := insert (target e) (reachableNodes s),
             queue := queue s @ [target e]\<rparr>
      else s\<lparr>validEdges := (validEdges s)(edge_id e \<mapsto> False)\<rparr>)"
  by (simp add: process_edge_def Let_def)

lemma fold_process_edge_reachable:
  "\<forall>e\<in>set es. source e = n \<Longrightarrow> n \<in> reachableNodes s \<Longrightarrow>
   reachableNodes (fold (process_edge state) es s) =
     reachableNodes s \<union> {target e |e. e \<in> set es \<and> evaluateEdgeRules e state}"
proof (induction es arbitrary: s)
  case Nil
  show ?case by simp
next
  case (Cons e es)
  from Cons.prems have src: "source e \<in> reachableNodes s" by simp
  have "n \<in> reachableNodes (process_edge state e s)"
    using Cons.prems by (simp add: process_edge_reach)
  with Cons.IH [of "process_edge state e s"] Cons.prems
  have "reachableNodes (fold (process_edge state) es (process_edge state e s)) =
     reachableNodes (process_edge state e s) \<union> {target e |e. e \<in> set es \<and> evaluateEdgeRules e state}"
    by simp
  then show ?case using src by (auto simp: process_edge_reach)
qed

lemma fold_process_edge_queue:
  "\<forall>e\<in>set es. source e = n \<Longrightarrow> n \<in> reachableNodes s \<Longrightarrow>
   queue (fold (process_edge state) es s) =
     queue s @ map target (filter (\<lambda>e. evaluateEdgeRules e state) es)"
proof (induction es arbitrary: s)
  case Nil
  show ?case by simp
next
  case (Cons e es)
  from Cons.prems have src: "source e \<in> reachableNodes s" by simp
  have "n \<in> reachableNodes (process_edge state e s)"
    using Cons.prems by (simp add: process_edge_reach)
  with Cons.IH [of "process_edge state e s"] Cons.prems
  have "queue (fold (process_edge state) es (process_edge state e s)) =
     queue (process_edge state e s) @ map target (filter (\<lambda>e. evaluateEdgeRules e state) es)"
    by simp
  then show ?case using src by (simp add: process_edge_reach)
qed

lemma process_edge_validEdges_other:
  "k \<noteq> edge_id e \<Longrightarrow> validEdges (process_edge state e s) k = validEdges s k"
  by (simp add: process_edge_def Let_def)

lemma fold_process_edge_validEdges_other:
  "k \<notin> edge_id ` set es \<Longrightarrow> validEdges (fold (process_edge state) es s) k = validEdges s k"
  by (induction es arbitrary: s) (auto simp: process_edge_validEdges_other)

lemma fold_process_edge_validEdges:
  "\<forall>e\<in>set es. source e = n \<Longrightarrow> n \<in> reachableNodes s \<Longrightarrow> distinct (map edge_id es) \<Longrightarrow>
   e \<in> set es \<Longrightarrow>
   validEdges (fold (process_edge state) es s) (edge_id e) = Some (evaluateEdgeRules e state)"
proof (induction es arbitrary: s)
  case Nil
  then show ?case by simp
next
  case (Cons x xs)
  from Cons.prems have src: "source x \<in> reachableNodes s" by simp
  have n': "n \<in> reachableNodes (process_edge state x s)"
    using Cons.prems by (simp add: process_edge_reach)
  show ?case
  proof (cases "e = x")
    case True
    from Cons.prems have "edge_id x \<notin> edge_id ` set xs" by simp
    then have "validEdges (fold (process_edge state) xs (process_edge state x s)) (edge_id x)
        = validEdges (process_edge state x s) (edge_id x)"
      by (rule fold_process_edge_validEdges_other)
    with True src show ?thesis by (simp add: process_edge_reach)
  next
    case False
    with Cons.prems have "e \<in> set xs" by simp
    with Cons.IH [of "process_edge state x s"] n' Cons.prems show ?thesis by simp
  qed
qed

subsection \<open>Preservation of the invariants\<close>

lemma reach_inv_queue: "reach_inv R0 edges state s \<Longrightarrow> set (queue s) \<subseteq> reachableNodes s"
  unfolding reach_inv_def by blast

lemma reach_inv_visited: "reach_inv R0 edges state s \<Longrightarrow> visited s \<subseteq> reachableNodes s"
  unfolding reach_inv_def by blast

lemma reach_inv_pending:
  "reach_inv R0 edges state s \<Longrightarrow> reachableNodes s \<subseteq> visited s \<union> set (queue s)"
  unfolding reach_inv_def by blast

lemma reach_inv_closure:
  "reach_inv R0 edges state s \<Longrightarrow> reachableNodes s =
     R0 \<union> {target e |e. e \<in> set edges \<and> source e \<in> visited s \<and> evaluateEdgeRules e state}"
  unfolding reach_inv_def by blast

lemma bfs_body_visited_case:
  "queue s = n # rest \<Longrightarrow> n \<in> visited s \<Longrightarrow> bfs_body edges state s = s\<lparr>queue := rest\<rparr>"
  by (simp add: bfs_body_def)

lemma bfs_body_expand_case:
  "queue s = n # rest \<Longrightarrow> n \<notin> visited s \<Longrightarrow>
   bfs_body edges state s =
     fold (process_edge state) (filter (\<lambda>e. source e = n) edges)
       (s\<lparr>queue := rest, visited := insert n (visited s)\<rparr>)"
  by (simp add: bfs_body_def nodeEdges_of_filter)

lemma reach_inv_bfs_body:
  assumes inv: "reach_inv R0 edges state s" and ne: "queue s \<noteq> []"
  shows "reach_inv R0 edges state (bfs_body edges state s)"
proof -
  from ne obtain n rest where q: "queue s = n # rest"
    by (cases "queue s") auto
  show ?thesis
  proof (cases "n \<in> visited s")
    case True
    have body: "bfs_body edges state s = s\<lparr>queue := rest\<rparr>"
      using q True by (rule bfs_body_visited_case)
    from reach_inv_queue [OF inv] q have "set rest \<subseteq> reachableNodes s" by simp
    moreover from reach_inv_pending [OF inv] q True
    have "reachableNodes s \<subseteq> visited s \<union> set rest" by auto
    ultimately show ?thesis
      using reach_inv_visited [OF inv] reach_inv_closure [OF inv]
      unfolding body reach_inv_def by simp
  next
    case False
    let ?es = "filter (\<lambda>e. source e = n) edges"
    let ?s0 = "s\<lparr>queue := rest, visited := insert n (visited s)\<rparr>"
    let ?s' = "fold (process_edge state) ?es ?s0"
    let ?T = "{target e |e. e \<in> set ?es \<and> evaluateEdgeRules e state}"
    have body: "bfs_body edges state s = ?s'"
      using q False by (rule bfs_body_expand_case)
    have src: "\<forall>e\<in>set ?es. source e = n" by simp
    have nr: "n \<in> reachableNodes ?s0" using reach_inv_queue [OF inv] q by simp
    have r: "reachableNodes ?s' = reachableNodes s \<union> ?T"
      using fold_process_edge_reachable [OF src nr, of state] by simp
    have qs: "set (queue ?s') = set rest \<union> ?T"
      using fold_process_edge_queue [OF src nr, of state] by auto
    have v: "visited ?s' = insert n (visited s)"
      by (simp add: fold_process_edge_visited)
    from reach_inv_queue [OF inv] q
    have i1: "set rest \<subseteq> reachableNodes s" and i1': "n \<in> reachableNodes s" by simp_all
    note i2 = reach_inv_visited [OF inv]
    from reach_inv_pending [OF inv] q
    have i3: "reachableNodes s \<subseteq> visited s \<union> insert n (set rest)" by simp
    note i4 = reach_inv_closure [OF inv]
    have "set (queue ?s') \<subseteq> reachableNodes ?s'" using qs r i1 by auto
    moreover have "visited ?s' \<subseteq> reachableNodes ?s'" using v r i2 i1' by auto
    moreover have "reachableNodes ?s' \<subseteq> visited ?s' \<union> set (queue ?s')"
      using v r qs i3 by auto
    moreover have "reachableNodes ?s' =
        R0 \<union> {target e |e. e \<in> set edges \<and> source e \<in> visited ?s' \<and> evaluateEdgeRules e state}"
      unfolding r v using i4 by auto
    ultimately show ?thesis unfolding body reach_inv_def by blast
  qed
qed

lemma valid_inv_bfs_body:
  assumes inv: "valid_inv edges state s" and ne: "queue s \<noteq> []"
    and sub: "set (queue s) \<subseteq> reachableNodes s"
    and dist: "distinct (map edge_id edges)"
  shows "valid_inv edges state (bfs_body edges state s)"
proof -
  from ne obtain n rest where q: "queue s = n # rest"
    by (cases "queue s") auto
  show ?thesis
  proof (cases "n \<in> visited s")
    case True
    with q inv show ?thesis
      by (simp add: bfs_body_visited_case valid_inv_def)
  next
    case False
    let ?es = "filter (\<lambda>e. source e = n) edges"
    let ?s0 = "s\<lparr>queue := rest, visited := insert n (visited s)\<rparr>"
    let ?s' = "fold (process_edge state) ?es ?s0"
    have body: "bfs_body edges state s = ?s'"
      using q False by (rule bfs_body_expand_case)
    have src: "\<forall>e\<in>set ?es. source e = n" by simp
    have nr: "n \<in> reachableNodes ?s0" using sub q by simp
    have des: "distinct (map edge_id ?es)" using dist by (rule distinct_map_filter)
    have v: "visited ?s' = insert n (visited s)"
      by (simp add: fold_process_edge_visited)
    have inj: "inj_on edge_id (set edges)" using dist by (simp add: distinct_map)
    have "validEdges ?s' (edge_id e) =
        (if source e \<in> visited ?s' then Some (evaluateEdgeRules e state) else None)"
      if e: "e \<in> set edges" for e
    proof (cases "source e = n")
      case True
      with e have "e \<in> set ?es" by simp
      from fold_process_edge_validEdges [OF src nr des this, of state] True v
      show ?thesis by simp
    next
      case sn: False
      have "edge_id e \<notin> edge_id ` set ?es"
      proof
        assume "edge_id e \<in> edge_id ` set ?es"
        then obtain e' where e': "e' \<in> set edges" "source e' = n" "edge_id e = edge_id e'"
          by auto
        with inj e have "e = e'" by (auto dest: inj_onD)
        with e' sn show False by simp
      qed
      then have "validEdges ?s' (edge_id e) = validEdges ?s0 (edge_id e)"
        by (rule fold_process_edge_validEdges_other)
      with inv e sn v show ?thesis by (simp add: valid_inv_def)
    qed
    moreover have "dom (validEdges ?s') \<subseteq> edge_id ` set edges"
    proof
      fix k assume k: "k \<in> dom (validEdges ?s')"
      show "k \<in> edge_id ` set edges"
      proof (rule ccontr)
        assume nk: "k \<notin> edge_id ` set edges"
        then have "k \<notin> edge_id ` set ?es" by auto
        then have "validEdges ?s' k = validEdges ?s0 k"
          by (rule fold_process_edge_validEdges_other)
        with k have "k \<in> dom (validEdges s)" by (simp add: dom_def)
        moreover from inv have "dom (validEdges s) \<subseteq> edge_id ` set edges"
          unfolding valid_inv_def by blast
        ultimately show False using nk by blast
      qed
    qed
    ultimately show ?thesis unfolding body valid_inv_def by blast
  qed
qed

lemma bfs_queue_empty: "queue (bfs edges state s) = []"
proof (induction edges state s rule: bfs.induct)
  case (1 edges state s)
  then show ?case by (subst bfs.simps) simp
qed

lemma reach_inv_bfs:
  "reach_inv R0 edges state s \<Longrightarrow> reach_inv R0 edges state (bfs edges state s)"
proof (induction edges state s rule: bfs.induct)
  case (1 edges state s)
  show ?case
  proof (cases "queue s = []")
    case True
    with "1.prems" show ?thesis by (subst bfs.simps) simp
  next
    case False
    with "1.prems" have "reach_inv R0 edges state (bfs_body edges state s)"
      by (intro reach_inv_bfs_body)
    with "1.IH" False show ?thesis by (subst bfs.simps) simp
  qed
qed

lemma valid_inv_bfs:
  "distinct (map edge_id edges) \<Longrightarrow> reach_inv R0 edges state s \<Longrightarrow> valid_inv edges state s \<Longrightarrow>
   valid_inv edges state (bfs edges state s)"
proof (induction edges state s rule: bfs.induct)
  case (1 edges state s)
  show ?case
  proof (cases "queue s = []")
    case True
    with "1.prems" show ?thesis by (subst bfs.simps) simp
  next
    case False
    from "1.prems" False have r: "reach_inv R0 edges state (bfs_body edges state s)"
      by (intro reach_inv_bfs_body)
    from "1.prems" have "set (queue s) \<subseteq> reachableNodes s" by (intro reach_inv_queue)
    with "1.prems" False have "valid_inv edges state (bfs_body edges state s)"
      by (intro valid_inv_bfs_body)
    with "1.IH" False r "1.prems" show ?thesis by (subst bfs.simps) simp
  qed
qed

subsection \<open>The result of \<open>evaluateFlow\<close>\<close>

lemma bfs_done: "queue s = [] \<Longrightarrow> bfs edges state s = s"
  by (subst bfs.simps) simp

lemma bfs_continue:
  "queue s \<noteq> [] \<Longrightarrow> bfs edges state s = bfs edges state (bfs_body edges state s)"
  by (subst bfs.simps) simp

lemma fold_insert_roots:
  "fold (\<lambda>root r. insert (node_id root) r) rs A = A \<union> node_id ` set rs"
  by (induction rs arbitrary: A) auto

lemma reachableNodes_initial_state:
  "reachableNodes (initial_state nodes edges) = node_id ` set (rootNodes nodes edges)"
  by (simp add: initial_state_def fold_insert_roots)

lemma reach_inv_initial_state:
  "reach_inv (node_id ` set (rootNodes nodes edges)) edges state (initial_state nodes edges)"
  unfolding reach_inv_def reachableNodes_initial_state
  by (simp add: initial_state_def)

lemma valid_inv_initial_state: "valid_inv edges state (initial_state nodes edges)"
  by (simp add: valid_inv_def initial_state_def)

lemma fold_mark_unvisited:
  "fold mark_unvisited es m k =
     (if m k = None \<and> k \<in> edge_id ` set es then Some False else m k)"
  by (induction es arbitrary: m) (auto simp: mark_unvisited_def)

lemma bfs_final_reachable_visited:
  assumes "reach_inv R0 edges state s"
  shows "reachableNodes (bfs edges state s) = visited (bfs edges state s)"
proof -
  have inv: "reach_inv R0 edges state (bfs edges state s)"
    using assms by (rule reach_inv_bfs)
  from reach_inv_pending [OF inv] reach_inv_visited [OF inv] show ?thesis
    by (simp add: bfs_queue_empty)
qed

lemma evaluateFlow_reachable_closure:
  "reachableNodes (evaluateFlow nodes edges state) =
     node_id ` set (rootNodes nodes edges) \<union>
     {target e |e. e \<in> set edges \<and> source e \<in> reachableNodes (evaluateFlow nodes edges state)
        \<and> evaluateEdgeRules e state}"
proof -
  let ?s = "bfs edges state (initial_state nodes edges)"
  have inv: "reach_inv (node_id ` set (rootNodes nodes edges)) edges state ?s"
    using reach_inv_initial_state by (rule reach_inv_bfs)
  have rv: "reachableNodes ?s = visited ?s"
    using reach_inv_initial_state by (rule bfs_final_reachable_visited)
  have r: "reachableNodes (evaluateFlow nodes edges state) = reachableNodes ?s"
    by (simp add: evaluateFlow_def Let_def)
  from reach_inv_closure [OF inv] show ?thesis
    unfolding r unfolding rv [symmetric] .
qed

lemma evaluateFlow_validEdges_entry:
  assumes dist: "distinct (map edge_id edges)" and e: "e \<in> set edges"
  shows "validEdges (evaluateFlow nodes edges state) (edge_id e) =
     Some (source e \<in> reachableNodes (evaluateFlow nodes edges state) \<and> evaluateEdgeRules e state)"
proof -
  let ?s = "bfs edges state (initial_state nodes edges)"
  have rv: "reachableNodes ?s = visited ?s"
    using reach_inv_initial_state by (rule bfs_final_reachable_visited)
  have "valid_inv edges state ?s"
    using dist reach_inv_initial_state valid_inv_initial_state by (rule valid_inv_bfs)
  with e have "validEdges ?s (edge_id e) =
      (if source e \<in> visited ?s then Some (evaluateEdgeRules e state) else None)"
    unfolding valid_inv_def by blast
  with e rv show ?thesis
    by (simp add: evaluateFlow_def Let_def fold_mark_unvisited)
qed

lemma evaluateFlow_validEdges_dom:
  assumes dist: "distinct (map edge_id edges)"
  shows "dom (validEdges (evaluateFlow nodes edges state)) = edge_id ` set edges"
proof -
  let ?s = "bfs edges state (initial_state nodes edges)"
  have "valid_inv edges state ?s"
    using dist reach_inv_initial_state valid_inv_initial_state by (rule valid_inv_bfs)
  then have "dom (validEdges ?s) \<subseteq> edge_id ` set edges"
    unfolding valid_inv_def by blast
  then show ?thesis
    by (auto simp: evaluateFlow_def Let_def fold_mark_unvisited dom_def split: if_splits)
qed

lemma process_edge_queue_length:
  "length (queue (process_edge state e s)) \<le> Suc (length (queue s))"
  by (simp add: process_edge_def Let_def)

lemma fold_process_edge_queue_length:
  "length (queue (fold (process_edge state) es s)) \<le> length (queue s) + length es"
proof (induction es arbitrary: s)
  case Nil
  show ?case by simp
next
  case (Cons e es)
  from Cons.IH [of "process_edge state e s"] process_edge_queue_length [of state e s]
  show ?case by simp
qed

lemma bfs_iterations:
  "\<exists>k \<le> length (queue s) + length (filter (\<lambda>e. source e \<notin> visited s) edges).
     queue ((bfs_body edges state ^^ k) s) = [] \<and>
     bfs edges state s = (bfs_body edges state ^^ k) s"
proof (induction edges state s rule: bfs.induct)
  case (1 edges state s)
  show ?case
  proof (cases "queue s = []")
    case True
    then show ?thesis by (intro exI [of _ 0]) (simp add: bfs_done)
  next
    case False
    let ?s' = "bfs_body edges state s"
    from "1.IH" [OF False] obtain k where
      k: "k \<le> length (queue ?s') + length (filter (\<lambda>e. source e \<notin> visited ?s') edges)"
      and fin: "queue ((bfs_body edges state ^^ k) ?s') = []"
      and eq: "bfs edges state ?s' = (bfs_body edges state ^^ k) ?s'"
      by blast
    from False obtain n rest where q: "queue s = n # rest"
      by (cases "queue s") auto
    have bound: "Suc (length (queue ?s') + length (filter (\<lambda>e. source e \<notin> visited ?s') edges))
        \<le> length (queue s) + length (filter (\<lambda>e. source e \<notin> visited s) edges)"
    proof (cases "n \<in> visited s")
      case True
      with q show ?thesis by (simp add: bfs_body_visited_case)
    next
      case nv: False
      let ?es = "filter (\<lambda>e. source e = n) edges"
      let ?unv = "filter (\<lambda>e. source e \<notin> visited s) edges"
      have body: "?s' = fold (process_edge state) ?es
          (s\<lparr>queue := rest, visited := insert n (visited s)\<rparr>)"
        using q nv by (rule bfs_body_expand_case)
      have ql: "length (queue ?s') \<le> length rest + length ?es"
        unfolding body using fold_process_edge_queue_length [of state ?es
            "s\<lparr>queue := rest, visited := insert n (visited s)\<rparr>"] by simp
      have v: "visited ?s' = insert n (visited s)"
        unfolding body by (simp add: fold_process_edge_visited)
      have "filter (\<lambda>e. source e = n) ?unv = ?es"
        using nv by (auto intro: filter_cong)
      moreover have "filter (\<lambda>e. source e \<noteq> n) ?unv
          = filter (\<lambda>e. source e \<notin> insert n (visited s)) edges"
        by (auto intro: filter_cong)
      ultimately have "length ?es
          + length (filter (\<lambda>e. source e \<notin> insert n (visited s)) edges) = length ?unv"
        using sum_length_filter_compl [of "\<lambda>e. source e = n" ?unv] by simp
      with ql v q show ?thesis by simp
    qed
    have "(bfs_body edges state ^^ Suc k) s = (bfs_body edges state ^^ k) ?s'"
      by (simp add: funpow_swap1)
    with k fin eq bound False show ?thesis
      by (intro exI [of _ "Suc k"]) (simp add: bfs_continue del: funpow.simps)
  qed
qed

subsection \<open>Edges without a rule list\<close>

lemma edge_rules_absent: "rules_absent e \<Longrightarrow> edge_rules e = []"
  by (simp add: rules_absent_def edge_rules_def split: option.splits)

lemma edge_rules_with_empty_rules: "edge_rules (with_empty_rules e) = edge_rules e"
  by (simp add: with_empty_rules_def edge_rules_absent) (simp add: edge_rules_def)

lemma with_empty_rules_fields:
  "edge_id (with_empty_rules e) = edge_id e"
  "source (with_empty_rules e) = source e"
  "target (with_empty_rules e) = target e"
  by (simp_all add: with_empty_rules_def)

lemma evaluateEdgeRules_with_empty_rules:
  "evaluateEdgeRules (with_empty_rules e) state = evaluateEdgeRules e state"
  by (simp add: evaluateEdgeRules_def edge_rules_with_empty_rules)

lemma process_edge_with_empty_rules:
  "process_edge state (with_empty_rules e) s = process_edge state e s"
  by (simp add: process_edge_def Let_def with_empty_rules_fields
        evaluateEdgeRules_with_empty_rules)

lemma fold_process_edge_with_empty_rules:
  "fold (process_edge state) (filter (\<lambda>e. source e = n) (map with_empty_rules edges)) s
   = fold (process_edge state) (filter (\<lambda>e. source e = n) edges) s"
  by (induction edges arbitrary: s)
     (simp_all add: with_empty_rules_fields process_edge_with_empty_rules)

lemma bfs_body_with_empty_rules:
  "bfs_body (map with_empty_rules edges) state s = bfs_body edges state s"
  by (simp add: bfs_body_def nodeEdges_of_filter fold_process_edge_with_empty_rules
           split: list.splits)

lemma bfs_with_empty_rules:
  "bfs (map with_empty_rules edges) state s = bfs edges state s"
proof (induction edges state s rule: bfs.induct)
  case (1 edges state s)
  show ?case
  proof (cases "queue s = []")
    case True
    then show ?thesis by (simp add: bfs_done)
  next
    case False
    then have "bfs (map with_empty_rules edges) state s
        = bfs (map with_empty_rules edges) state (bfs_body edges state s)"
      using bfs_continue [of s "map with_empty_rules edges" state]
      by (simp add: bfs_body_with_empty_rules)
    also have "\<dots> = bfs edges state (bfs_body edges state s)"
      using False by (rule "1.IH")
    also have "\<dots> = bfs edges state s"
      using False by (simp add: bfs_continue)
    finally show ?thesis .
  qed
qed

lemma evaluateFlow_with_empty_rules:
  "evaluateFlow nodes (map with_empty_rules edges) state = evaluateFlow nodes edges state"
proof -
  have "map target (map with_empty_rules edges) = map target edges"
    by (simp add: with_empty_rules_fields)
  then have "nodesWithIncoming (map with_empty_rules edges) = nodesWithIncoming edges"
    unfolding nodesWithIncoming_def by simp
  then have i: "initial_state nodes (map with_empty_rules edges) = initial_state nodes edges"
    by (simp add: initial_state_def rootNodes_def)
  have "mark_unvisited (with_empty_rules e) = mark_unvisited e" for e
    by (rule ext) (simp add: mark_unvisited_def with_empty_rules_fields)
  then have "fold mark_unvisited (map with_empty_rules edges) m = fold mark_unvisited edges m" for m
    by (simp add: fold_map comp_def)
  with i show ?thesis
    by (simp add: evaluateFlow_def bfs_with_empty_rules)
qed

section \<open>Properties of the condition discovery\<close>

lemma set_insert_sorted: "set (insert_sorted cmp x xs) = insert x (set xs)"
  by (induction xs) auto

lemma distinct_insert_sorted:
  "distinct (insert_sorted cmp x xs) \<longleftrightarrow> x \<notin> set xs \<and> distinct xs"
  by (induction xs) (auto simp: set_insert_sorted)

lemma array_sort_Cons: "array_sort cmp (x # xs) = insert_sorted cmp x (array_sort cmp xs)"
  by (simp add: array_sort_def)

lemma set_array_sort: "set (array_sort cmp xs) = set xs"
  by (induction xs) (simp_all add: array_sort_def set_insert_sorted)

lemma distinct_array_sort: "distinct (array_sort cmp xs) \<longleftrightarrow> distinct xs"
  by (induction xs)
     (simp_all add: array_sort_Cons distinct_insert_sorted set_array_sort, simp add: array_sort_def)

lemma map_insert_sorted:
  "map f (insert_sorted (\<lambda>a b. cmp (f a) (f b)) x xs) = insert_sorted cmp (f x) (map f xs)"
  by (induction xs) simp_all

lemma map_array_sort:
  "map f (array_sort (\<lambda>a b. cmp (f a) (f b)) xs) = array_sort cmp (map f xs)"
  by (induction xs) (simp_all add: array_sort_Cons map_insert_sorted, simp add: array_sort_def)

lemma sorted_wrt_insert_sorted:
  assumes total: "\<forall>a b. cmp a b \<le> 0 \<or> cmp b a \<le> 0"
    and trans: "\<forall>a b c. cmp a b \<le> 0 \<and> cmp b c \<le> 0 \<longrightarrow> cmp a c \<le> 0"
  shows "sorted_wrt (\<lambda>a b. cmp a b \<le> 0) xs \<Longrightarrow>
         sorted_wrt (\<lambda>a b. cmp a b \<le> 0) (insert_sorted cmp x xs)"
proof (induction xs)
  case Nil
  show ?case by simp
next
  case (Cons y ys)
  show ?case
  proof (cases "cmp x y \<le> 0")
    case True
    have "cmp x z \<le> 0" if "z \<in> set ys" for z
    proof -
      from Cons.prems that have "cmp y z \<le> 0" by simp
      with True trans show ?thesis by blast
    qed
    with True Cons.prems show ?thesis by simp
  next
    case False
    with total have "cmp y x \<le> 0" by blast
    with False Cons show ?thesis by (auto simp: set_insert_sorted)
  qed
qed

lemma sorted_wrt_array_sort:
  assumes "\<forall>a b. cmp a b \<le> 0 \<or> cmp b a \<le> 0"
    and "\<forall>a b c. cmp a b \<le> 0 \<and> cmp b c \<le> 0 \<longrightarrow> cmp a c \<le> 0"
  shows "sorted_wrt (\<lambda>a b. cmp a b \<le> 0) (array_sort cmp xs)"
proof (induction xs)
  case Nil
  show ?case by (simp add: array_sort_def)
next
  case (Cons x xs)
  from sorted_wrt_insert_sorted [OF assms Cons.IH] show ?case
    by (simp add: array_sort_Cons)
qed

lemma sorted_wrt_array_sort_key:
  assumes total: "\<forall>a b. cmp a b \<le> 0 \<or> cmp b a \<le> 0"
    and trans: "\<forall>a b c. cmp a b \<le> 0 \<and> cmp b c \<le> 0 \<longrightarrow> cmp a c \<le> 0"
  shows "sorted_wrt (\<lambda>a b. cmp (f a) (f b) \<le> 0) (array_sort (\<lambda>a b. cmp (f a) (f b)) xs)"
proof (rule sorted_wrt_array_sort)
  show "\<forall>a b. cmp (f a) (f b) \<le> 0 \<or> cmp (f b) (f a) \<le> 0" using total by blast
  show "\<forall>a b c. cmp (f a) (f b) \<le> 0 \<and> cmp (f b) (f c) \<le> 0 \<longrightarrow> cmp (f a) (f c) \<le> 0"
    using trans by blast
qed

lemma map_of_add_rule_value:
  "map_of (add_rule_value r m) =
     (map_of m)(condition r \<mapsto>
        set_add (rule_value r) (case map_of m (condition r) of None \<Rightarrow> [] | Some vs \<Rightarrow> vs))"
  by (cases "map_of m (condition r)")
     (simp_all add: add_rule_value_def Let_def update_conv')

lemma distinct_add_rule_value:
  "distinct (map fst m) \<Longrightarrow> distinct (map fst (add_rule_value r m))"
  by (simp add: add_rule_value_def Let_def distinct_update split: option.splits)

lemma fold_concat_map:
  "fold f (concat (map g xs)) s = fold (\<lambda>x. fold f (g x)) xs s"
  by (induction xs arbitrary: s) simp_all

lemma conditionMap_fold:
  "conditionMap edges = fold add_rule_value (all_rules edges) []"
  by (simp add: conditionMap_def all_rules_def fold_concat_map)

lemma set_add_set: "set (set_add x xs) = insert x (set xs)"
  by (auto simp: set_add_def)

lemma set_add_distinct: "distinct xs \<Longrightarrow> distinct (set_add x xs)"
  by (simp add: set_add_def)

lemma cmap_inv_step:
  assumes "cmap_inv rs m"
  shows "cmap_inv (rs @ [r]) (add_rule_value r m)"
proof -
  from assms have d: "distinct (map fst m)" and k: "fst ` set m = condition ` set rs"
    and v: "\<And>k vs. map_of m k = Some vs \<Longrightarrow>
        distinct vs \<and> set vs = {rule_value r |r. r \<in> set rs \<and> condition r = k}"
    unfolding cmap_inv_def by blast+
  let ?old = "case map_of m (condition r) of None \<Rightarrow> [] | Some vs \<Rightarrow> vs"
  have old: "distinct ?old \<and> set ?old = {rule_value x |x. x \<in> set rs \<and> condition x = condition r}"
  proof (cases "map_of m (condition r)")
    case None
    then have "condition r \<notin> fst ` set m" by (simp add: map_of_eq_None_iff)
    with k have "condition r \<notin> condition ` set rs" by simp
    then have "\<forall>x\<in>set rs. condition x \<noteq> condition r" by (metis imageI)
    then have "{rule_value x |x. x \<in> set rs \<and> condition x = condition r} = {}" by auto
    with None show ?thesis by simp
  next
    case (Some vs)
    with v [OF Some] show ?thesis by simp
  qed
  have "distinct (map fst (add_rule_value r m))"
    using d by (rule distinct_add_rule_value)
  moreover have "fst ` set (add_rule_value r m) = condition ` set (rs @ [r])"
  proof -
    have "fst ` set (add_rule_value r m) = dom (map_of (add_rule_value r m))"
      by (simp add: dom_map_of_conv_image_fst)
    also have "\<dots> = insert (condition r) (dom (map_of m))"
      by (simp add: map_of_add_rule_value)
    also have "\<dots> = insert (condition r) (fst ` set m)"
      by (simp add: dom_map_of_conv_image_fst)
    finally show ?thesis using k by auto
  qed
  moreover have "distinct vs \<and>
      set vs = {rule_value x |x. x \<in> set (rs @ [r]) \<and> condition x = c}"
    if "map_of (add_rule_value r m) c = Some vs" for c vs
  proof (cases "c = condition r")
    case True
    with that have "vs = set_add (rule_value r) ?old"
      by (simp add: map_of_add_rule_value)
    with old True show ?thesis
      by (auto simp: set_add_set set_add_distinct)
  next
    case False
    with that have "map_of m c = Some vs" by (simp add: map_of_add_rule_value)
    from v [OF this] False show ?thesis by auto
  qed
  ultimately show ?thesis unfolding cmap_inv_def by blast
qed

lemma cmap_inv_fold: "cmap_inv rs (fold add_rule_value rs [])"
proof (induction rs rule: rev_induct)
  case Nil
  show ?case by (simp add: cmap_inv_def)
next
  case (snoc r rs)
  then show ?case by (simp add: cmap_inv_step)
qed

lemma cmap_inv_conditionMap: "cmap_inv (all_rules edges) (conditionMap edges)"
  unfolding conditionMap_fold by (rule cmap_inv_fold)

lemma infer_type_iff:
  "infer_type vs =
     (if \<forall>v\<in>set vs. typeof v = ''boolean'' then Boolean
      else if \<forall>v\<in>set vs. typeof v = ''number'' then Number else Enum)"
  by (simp add: infer_type_def list_all_iff)

lemma make_schema_fields:
  "name (make_schema lc numstr (k, vs)) = k"
  "ctype (make_schema lc numstr (k, vs)) = infer_type vs"
  "options (make_schema lc numstr (k, vs))
     = array_sort (\<lambda>a b. lc (String_js numstr a) (String_js numstr b)) vs"
  by (simp_all add: make_schema_def)

lemma name_make_schema: "map name (map (make_schema lc numstr) m) = map fst m"
  by (induction m) (auto simp: make_schema_fields)

lemma discoverConditions_names:
  "distinct (map name (discoverConditions lc numstr edges))"
  "set (map name (discoverConditions lc numstr edges)) = condition ` set (all_rules edges)"
proof -
  let ?m = "conditionMap edges"
  from cmap_inv_conditionMap [of edges]
  have d: "distinct (map fst ?m)" and k: "fst ` set ?m = condition ` set (all_rules edges)"
    unfolding cmap_inv_def by blast+
  have n: "map name (discoverConditions lc numstr edges) = array_sort lc (map fst ?m)"
    unfolding discoverConditions_def map_array_sort name_make_schema ..
  show "distinct (map name (discoverConditions lc numstr edges))"
    unfolding n using d by (simp add: distinct_array_sort)
  show "set (map name (discoverConditions lc numstr edges)) = condition ` set (all_rules edges)"
    unfolding n using k by (simp add: set_array_sort)
qed

lemma discoverConditions_sorted:
  assumes "\<forall>a b. lc a b \<le> 0 \<or> lc b a \<le> 0"
    and "\<forall>a b c. lc a b \<le> 0 \<and> lc b c \<le> 0 \<longrightarrow> lc a c \<le> 0"
  shows "sorted_wrt (\<lambda>c d. lc (name c) (name d) \<le> 0) (discoverConditions lc numstr edges)"
  unfolding discoverConditions_def using assms by (rule sorted_wrt_array_sort_key)

lemma discoverConditions_entry:
  assumes "c \<in> set (discoverConditions lc numstr edges)"
  shows "distinct (options c)"
    and "set (options c) = {rule_value r |r. r \<in> set (all_rules edges) \<and> condition r = name c}"
    and "ctype c =
      (if \<forall>v\<in>set (options c). typeof v = ''boolean'' then Boolean
       else if \<forall>v\<in>set (options c). typeof v = ''number'' then Number else Enum)"
    and "(\<forall>a b. lc a b \<le> 0 \<or> lc b a \<le> 0) \<Longrightarrow>
         (\<forall>a b c. lc a b \<le> 0 \<and> lc b c \<le> 0 \<longrightarrow> lc a c \<le> 0) \<Longrightarrow>
         sorted_wrt (\<lambda>a b. lc (String_js numstr a) (String_js numstr b) \<le> 0) (options c)"
proof -
  let ?m = "conditionMap edges"
  from cmap_inv_conditionMap [of edges]
  have d: "distinct (map fst ?m)"
    and v: "\<And>k vs. map_of ?m k = Some vs \<Longrightarrow>
        distinct vs \<and> set vs = {rule_value r |r. r \<in> set (all_rules edges) \<and> condition r = k}"
    unfolding cmap_inv_def by blast+
  from assms obtain k vs where kv: "(k, vs) \<in> set ?m" and c: "c = make_schema lc numstr (k, vs)"
    unfolding discoverConditions_def by (auto simp: set_array_sort)
  from d kv have "map_of ?m k = Some vs" by simp
  from v [OF this] have dv: "distinct vs"
    and sv: "set vs = {rule_value r |r. r \<in> set (all_rules edges) \<and> condition r = k}"
    by blast+
  show "distinct (options c)"
    unfolding c using dv by (simp add: make_schema_fields distinct_array_sort)
  show "set (options c) = {rule_value r |r. r \<in> set (all_rules edges) \<and> condition r = name c}"
    unfolding c using sv by (simp add: make_schema_fields set_array_sort)
  show "ctype c =
      (if \<forall>v\<in>set (options c). typeof v = ''boolean'' then Boolean
       else if \<forall>v\<in>set (options c). typeof v = ''number'' then Number else Enum)"
    unfolding c by (simp add: make_schema_fields infer_type_iff set_array_sort)
  show "sorted_wrt (\<lambda>a b. lc (String_js numstr a) (String_js numstr b) \<le> 0) (options c)"
    if "\<forall>a b. lc a b \<le> 0 \<or> lc b a \<le> 0"
      and "\<forall>a b c. lc a b \<le> 0 \<and> lc b c \<le> 0 \<longrightarrow> lc a c \<le> 0"
    unfolding c make_schema_fields using that by (rule sorted_wrt_array_sort_key)
qed

lemma collate_le: "collate a b \<le> 0 \<longleftrightarrow> collate_key a \<le> collate_key b"
  by (auto simp: collate_def)

lemma collate_total: "\<forall>a b. collate a b \<le> 0 \<or> collate b a \<le> 0"
  unfolding collate_le by (simp add: linear)

lemma collate_trans: "\<forall>a b c. collate a b \<le> 0 \<and> collate b c \<le> 0 \<longrightarrow> collate a c \<le> 0"
  unfolding collate_le by (blast intro: order_trans)

section \<open>Properties of the ancestor trace\<close>

lemma trace_edge_edges:
  "highlightedEdges (trace_edge e t) = insert (edge_id e) (highlightedEdges t)"
  by (simp add: trace_edge_def Let_def)

lemma fold_trace_edge_edges:
  "highlightedEdges (fold trace_edge es t) = highlightedEdges t \<union> edge_id ` set es"
  by (induction es arbitrary: t) (auto simp: trace_edge_edges)

lemma trace_edge_queue_set:
  "set (trace_queue (trace_edge e t)) = set (trace_queue t) \<union> ({source e} - highlightedNodes t)"
  by (auto simp: trace_edge_def Let_def)

lemma fold_trace_edge_queue_set:
  "set (trace_queue (fold trace_edge es t)) =
     set (trace_queue t) \<union> (source ` set es - highlightedNodes t)"
proof (induction es arbitrary: t)
  case Nil
  show ?case by simp
next
  case (Cons e es)
  have "set (trace_queue (fold trace_edge (e # es) t)) =
      set (trace_queue (trace_edge e t)) \<union> (source ` set es - highlightedNodes (trace_edge e t))"
    using Cons.IH [of "trace_edge e t"] by simp
  then show ?case
    by (auto simp: trace_edge_queue_set trace_edge_nodes)
qed

lemma trace_done: "trace_queue t = [] \<Longrightarrow> trace_loop edges t = t"
  by (subst trace_loop.simps) simp

lemma trace_continue:
  "trace_queue t \<noteq> [] \<Longrightarrow> trace_loop edges t = trace_loop edges (trace_body edges t)"
  by (subst trace_loop.simps) simp

lemma trace_loop_queue_empty: "trace_queue (trace_loop edges t) = []"
proof (induction edges t rule: trace_loop.induct)
  case (1 edges t)
  then show ?case by (cases "trace_queue t = []") (simp_all add: trace_done trace_continue)
qed

lemma trace_inv_body:
  assumes inv: "trace_inv h edges t" and ne: "trace_queue t \<noteq> []"
  shows "trace_inv h edges (trace_body edges t)"
proof -
  from ne obtain n rest where q: "trace_queue t = n # rest"
    by (cases "trace_queue t") auto
  let ?es = "filter (\<lambda>e. target e = n) edges"
  let ?t' = "fold trace_edge ?es (t\<lparr>trace_queue := rest\<rparr>)"
  have body: "trace_body edges t = ?t'"
    using q by (simp add: trace_body_def incoming_of_filter)
  have N: "highlightedNodes ?t' = highlightedNodes t \<union> source ` set ?es"
    by (simp add: fold_trace_edge_nodes)
  have E: "highlightedEdges ?t' = highlightedEdges t \<union> edge_id ` set ?es"
    by (simp add: fold_trace_edge_edges)
  have Q: "set (trace_queue ?t') = set rest \<union> (source ` set ?es - highlightedNodes t)"
    by (simp add: fold_trace_edge_queue_set)
  from inv q have j1: "h \<in> highlightedNodes t"
    and j2: "highlightedNodes t \<subseteq> {n. (n, h) \<in> (edge_rel edges)\<^sup>*}"
    and j3: "n \<in> highlightedNodes t" "set rest \<subseteq> highlightedNodes t"
    and j4: "\<And>e. e \<in> set edges \<Longrightarrow> target e \<in> highlightedNodes t \<Longrightarrow>
        target e \<noteq> n \<Longrightarrow> target e \<notin> set rest \<Longrightarrow>
        source e \<in> highlightedNodes t \<and> edge_id e \<in> highlightedEdges t"
    and j5: "highlightedEdges t \<subseteq> {edge_id e |e. e \<in> set edges \<and> target e \<in> highlightedNodes t}"
    unfolding trace_inv_def by auto
  have k1: "h \<in> highlightedNodes ?t'" using j1 N by simp
  have k2: "highlightedNodes ?t' \<subseteq> {n. (n, h) \<in> (edge_rel edges)\<^sup>*}"
  proof
    fix x assume "x \<in> highlightedNodes ?t'"
    with N consider "x \<in> highlightedNodes t" | "x \<in> source ` set ?es" by auto
    then show "x \<in> {n. (n, h) \<in> (edge_rel edges)\<^sup>*}"
    proof cases
      case 1
      with j2 show ?thesis by blast
    next
      case 2
      then obtain e where e: "e \<in> set edges" "target e = n" "x = source e" by auto
      then have "(x, n) \<in> edge_rel edges" unfolding edge_rel_def by force
      moreover from j2 j3 have "(n, h) \<in> (edge_rel edges)\<^sup>*" by blast
      ultimately show ?thesis by (simp add: converse_rtrancl_into_rtrancl)
    qed
  qed
  have k3: "set (trace_queue ?t') \<subseteq> highlightedNodes ?t'"
    unfolding Q N using j3 by auto
  have k4: "source e \<in> highlightedNodes ?t' \<and> edge_id e \<in> highlightedEdges ?t'"
    if e: "e \<in> set edges" and tn: "target e \<in> highlightedNodes ?t'"
      and tq: "target e \<notin> set (trace_queue ?t')" for e
  proof (cases "target e = n")
    case True
    with e have "e \<in> set ?es" by simp
    then show ?thesis unfolding N E by blast
  next
    case False
    from tq Q have nr: "target e \<notin> set rest"
      and nn: "target e \<notin> source ` set ?es - highlightedNodes t" by auto
    from tn N nn have "target e \<in> highlightedNodes t" by auto
    from j4 [OF e this False nr] show ?thesis unfolding N E by blast
  qed
  have k5: "highlightedEdges ?t' \<subseteq> {edge_id e |e. e \<in> set edges \<and> target e \<in> highlightedNodes ?t'}"
    unfolding E N using j5 j3 by auto
  from k1 k2 k3 k4 k5 show ?thesis unfolding body trace_inv_def by blast
qed

lemma trace_inv_loop:
  "trace_inv h edges t \<Longrightarrow> trace_inv h edges (trace_loop edges t)"
proof (induction edges t rule: trace_loop.induct)
  case (1 edges t)
  show ?case
  proof (cases "trace_queue t = []")
    case True
    with "1.prems" show ?thesis by (simp add: trace_done)
  next
    case False
    with "1.prems" have "trace_inv h edges (trace_body edges t)" by (intro trace_inv_body)
    with "1.IH" False show ?thesis by (simp add: trace_continue)
  qed
qed

lemma trace_inv_initial:
  "trace_inv h edges \<lparr>highlightedNodes = {h}, highlightedEdges = {}, trace_queue = [h]\<rparr>"
  by (simp add: trace_inv_def)

lemma trace_loop_closure:
  assumes "trace_inv h edges t"
  shows "highlightedNodes (trace_loop edges t) = {n. (n, h) \<in> (edge_rel edges)\<^sup>*}"
    and "highlightedEdges (trace_loop edges t)
      = {edge_id e |e. e \<in> set edges \<and> (target e, h) \<in> (edge_rel edges)\<^sup>*}"
proof -
  let ?t = "trace_loop edges t"
  from trace_inv_loop [OF assms] trace_loop_queue_empty [of edges t]
  have j1: "h \<in> highlightedNodes ?t"
    and j2: "highlightedNodes ?t \<subseteq> {n. (n, h) \<in> (edge_rel edges)\<^sup>*}"
    and j4: "\<And>e. e \<in> set edges \<Longrightarrow> target e \<in> highlightedNodes ?t \<Longrightarrow>
        source e \<in> highlightedNodes ?t \<and> edge_id e \<in> highlightedEdges ?t"
    and j5: "highlightedEdges ?t \<subseteq> {edge_id e |e. e \<in> set edges \<and> target e \<in> highlightedNodes ?t}"
    unfolding trace_inv_def by auto
  have "n \<in> highlightedNodes ?t" if "(n, h) \<in> (edge_rel edges)\<^sup>*" for n
    using that
  proof (induction rule: converse_rtrancl_induct)
    case base
    show ?case by (rule j1)
  next
    case (step y z)
    from step.hyps(1) obtain e where "e \<in> set edges" "source e = y" "target e = z"
      unfolding edge_rel_def by auto
    with j4 [of e] step.IH show ?case by auto
  qed
  with j2 show N: "highlightedNodes ?t = {n. (n, h) \<in> (edge_rel edges)\<^sup>*}" by blast
  from j4 j5 have "highlightedEdges ?t
      = {edge_id e |e. e \<in> set edges \<and> target e \<in> highlightedNodes ?t}"
    by blast
  then show "highlightedEdges ?t
      = {edge_id e |e. e \<in> set edges \<and> (target e, h) \<in> (edge_rel edges)\<^sup>*}"
    unfolding N by simp
qed

lemma traceHighlight_active:
  "focus \<noteq> [] \<Longrightarrow> traceHighlight True (Some focus) edges =
     \<lparr>highlightedNodes = highlightedNodes (trace_loop edges
          \<lparr>highlightedNodes = {focus}, highlightedEdges = {}, trace_queue = [focus]\<rparr>),
      highlightedEdges = highlightedEdges (trace_loop edges
          \<lparr>highlightedNodes = {focus}, highlightedEdges = {}, trace_queue = [focus]\<rparr>)\<rparr>"
  by (simp add: traceHighlight_def Let_def)

lemma traceHighlight_sets:
  assumes "focus \<noteq> []"
  shows "traceHighlight True (Some focus) edges =
     \<lparr>highlightedNodes = {n. (n, focus) \<in> (edge_rel edges)\<^sup>*},
      highlightedEdges = {edge_id e |e. e \<in> set edges \<and> (target e, focus) \<in> (edge_rel edges)\<^sup>*}\<rparr>"
  unfolding traceHighlight_active [OF assms]
  using trace_loop_closure [OF trace_inv_initial [of focus edges]] by simp

lemma edge_rel_shape: "edge_rel edges = (\<lambda>(i, s, t). (s, t)) ` set (map edge_shape edges)"
  by (force simp: edge_rel_def edge_shape_def)

lemma edge_ids_shape:
  "{edge_id e |e. e \<in> set edges \<and> P (target e)}
     = {i. \<exists>s t. (i, s, t) \<in> set (map edge_shape edges) \<and> P t}"
  by (force simp: edge_shape_def)

lemma traceHighlight_shape:
  assumes "focus \<noteq> []" and "map edge_shape edges' = map edge_shape edges"
  shows "traceHighlight True (Some focus) edges' = traceHighlight True (Some focus) edges"
proof -
  from assms(2) have "edge_rel edges' = edge_rel edges"
    by (simp only: edge_rel_shape)
  moreover
  have "{edge_id e |e. e \<in> set edges' \<and> (target e, focus) \<in> (edge_rel edges)\<^sup>*}
      = {edge_id e |e. e \<in> set edges \<and> (target e, focus) \<in> (edge_rel edges)\<^sup>*}"
    using edge_ids_shape [of edges' "\<lambda>t. (t, focus) \<in> (edge_rel edges)\<^sup>*"]
      edge_ids_shape [of edges "\<lambda>t. (t, focus) \<in> (edge_rel edges)\<^sup>*"] assms(2)
    by simp
  ultimately show ?thesis
    by (simp only: traceHighlight_sets [OF assms(1)])
qed

lemma traceHighlight_root:
  assumes "focus \<noteq> []" and "\<forall>e\<in>set edges. target e \<noteq> focus"
  shows "traceHighlight True (Some focus) edges
     = \<lparr>highlightedNodes = {focus}, highlightedEdges = {}\<rparr>"
proof -
  let ?t = "\<lparr>highlightedNodes = {focus}, highlightedEdges = {}, trace_queue = [focus]\<rparr>"
  from assms(2) have "filter (\<lambda>e. target e = focus) edges = []"
    by (simp add: filter_empty_conv)
  then have "trace_body edges ?t = ?t\<lparr>trace_queue := []\<rparr>"
    by (simp add: trace_body_def incoming_of_filter)
  then have "trace_loop edges ?t = ?t\<lparr>trace_queue := []\<rparr>"
    by (simp add: trace_continue trace_done)
  then show ?thesis by (simp add: traceHighlight_active [OF assms(1)])
qed

section \<open>Rule evaluation: the claims\<close>

text \<open>
  Claim C3. A rule whose condition has no entry in the simulation state should pass,
  whatever its operator and value are; the comment in the source says so (undefined
  means no constraint). The code does not do this for a condition named like a member
  of \<^verbatim>\<open>Object.prototype\<close>: in the empty state the rule \<^verbatim>\<open>toString is "x"\<close> reads the inherited
  function, which is not undefined and not equal to the string, and the rule fails.
\<close>

theorem evaluateRule_inherited_property:
  "Map.empty ''toString'' = None \<and>
   \<not> evaluateRule \<lparr>rule_id = ''r1'', condition = ''toString'', operator = Is,
                    rule_value = VString ''x''\<rparr> Map.empty"
  by (simp add: evaluateRule_def get_property_def object_prototype_names_def)

text \<open>
  For every other condition name the code does what the comment says: an absent
  condition passes.
\<close>

lemma evaluateRule_absent_condition:
  "state (condition rule) = None \<Longrightarrow> condition rule \<notin> set object_prototype_names \<Longrightarrow>
   evaluateRule rule state"
  by (simp add: evaluateRule_def get_property_def)

text \<open>
  Claim C4. When the state has a value for the rule's condition: \<^verbatim>\<open>is\<close> holds exactly when
  the two values are equal in type and content (the number 5 is not the string 5),
  \<^verbatim>\<open>is_not\<close> exactly when they are not, and \<^verbatim>\<open>greater_than\<close> and \<^verbatim>\<open>less_than\<close> exactly when
  both are numbers and the comparison holds, so that any other pair of types gives
  false. \<open>evaluateRule\<close> has no error branch: every input gives a boolean.
\<close>

theorem evaluateRule_operators:
  assumes "state (condition rule) = Some currentValue"
  shows "(operator rule = Is \<longrightarrow>
            evaluateRule rule state =
              (typeof currentValue = typeof (rule_value rule) \<and> currentValue = rule_value rule)) \<and>
         (operator rule = Is_not \<longrightarrow>
            evaluateRule rule state = (currentValue \<noteq> rule_value rule)) \<and>
         (operator rule = Greater_than \<longrightarrow>
            evaluateRule rule state =
              (\<exists>c v. currentValue = VNumber c \<and> rule_value rule = VNumber v \<and> c > v)) \<and>
         (operator rule = Less_than \<longrightarrow>
            evaluateRule rule state =
              (\<exists>c v. currentValue = VNumber c \<and> rule_value rule = VNumber v \<and> c < v)) \<and>
         ((operator rule = Greater_than \<or> operator rule = Less_than) \<and>
            (typeof currentValue \<noteq> ''number'' \<or> typeof (rule_value rule) \<noteq> ''number'')
          \<longrightarrow> \<not> evaluateRule rule state) \<and>
         VNumber 5 \<noteq> VString ''5''"
  using assms
  by (cases currentValue; cases "rule_value rule"; cases "operator rule")
     (simp_all add: evaluateRule_def get_property_def)

theorem evaluateRule_operators_witness:
  "\<not> evaluateRule \<lparr>rule_id = ''r1'', condition = ''x'', operator = Is,
                    rule_value = VString ''5''\<rparr> [''x'' \<mapsto> VNumber 5] \<and>
   evaluateRule \<lparr>rule_id = ''r2'', condition = ''x'', operator = Is_not,
                  rule_value = VString ''5''\<rparr> [''x'' \<mapsto> VNumber 5] \<and>
   \<not> evaluateRule \<lparr>rule_id = ''r3'', condition = ''x'', operator = Greater_than,
                    rule_value = VNumber 5\<rparr> [''x'' \<mapsto> VBoolean True] \<and>
   evaluateRule \<lparr>rule_id = ''r4'', condition = ''x'', operator = Less_than,
                  rule_value = VNumber 5\<rparr> [''x'' \<mapsto> VNumber 4]"
  using evaluateRule_operators
      [of "[''x'' \<mapsto> VNumber 5]"
          "\<lparr>rule_id = ''r1'', condition = ''x'', operator = Is, rule_value = VString ''5''\<rparr>"
          "VNumber 5"]
    evaluateRule_operators
      [of "[''x'' \<mapsto> VNumber 5]"
          "\<lparr>rule_id = ''r2'', condition = ''x'', operator = Is_not, rule_value = VString ''5''\<rparr>"
          "VNumber 5"]
    evaluateRule_operators
      [of "[''x'' \<mapsto> VBoolean True]"
          "\<lparr>rule_id = ''r3'', condition = ''x'', operator = Greater_than, rule_value = VNumber 5\<rparr>"
          "VBoolean True"]
    evaluateRule_operators
      [of "[''x'' \<mapsto> VNumber 4]"
          "\<lparr>rule_id = ''r4'', condition = ''x'', operator = Less_than, rule_value = VNumber 5\<rparr>"
          "VNumber 4"]
  by simp

text \<open>
  Claim C8. \<open>evaluateEdgeRules\<close> is the conjunction of \<open>evaluateRule\<close> over the rule list of
  the edge: it holds exactly when every rule passes, and an edge with an empty rule list
  is valid in every state.
\<close>

theorem evaluateEdgeRules_and_reduction:
  "evaluateEdgeRules edge state = (\<forall>rule \<in> set (edge_rules edge). evaluateRule rule state) \<and>
   evaluateEdgeRules edge state
     = foldr (\<lambda>rule acc. evaluateRule rule state \<and> acc) (edge_rules edge) True \<and>
   (data edge = Some \<lparr>rules = Some []\<rparr> \<longrightarrow> evaluateEdgeRules edge state)"
proof -
  have "list_all P xs = foldr (\<lambda>x acc. P x \<and> acc) xs True" for P :: "EdgeRule \<Rightarrow> bool" and xs
    by (induction xs) simp_all
  then have "evaluateEdgeRules edge state
      = foldr (\<lambda>rule acc. evaluateRule rule state \<and> acc) (edge_rules edge) True"
    by (simp add: evaluateEdgeRules_def Let_def)
  moreover have "evaluateEdgeRules edge state
      = (\<forall>rule \<in> set (edge_rules edge). evaluateRule rule state)"
    by (simp add: evaluateEdgeRules_def Let_def list_all_iff)
  moreover have "data edge = Some \<lparr>rules = Some []\<rparr> \<longrightarrow> evaluateEdgeRules edge state"
    by (simp add: evaluateEdgeRules_def edge_rules_def)
  ultimately show ?thesis by blast
qed

theorem evaluateEdgeRules_and_reduction_witness:
  "\<not> evaluateEdgeRules
       \<lparr>edge_id = ''e1'', source = ''A'', target = ''B'',
        data = Some \<lparr>rules = Some
          [\<lparr>rule_id = ''r1'', condition = ''role'', operator = Is, rule_value = VString ''admin''\<rparr>,
           \<lparr>rule_id = ''r2'', condition = ''age'', operator = Greater_than, rule_value = VNumber 18\<rparr>]\<rparr>\<rparr>
       [''role'' \<mapsto> VString ''admin'', ''age'' \<mapsto> VNumber 7] \<and>
   evaluateEdgeRules
       \<lparr>edge_id = ''e2'', source = ''A'', target = ''B'', data = Some \<lparr>rules = Some []\<rparr>\<rparr>
       [''role'' \<mapsto> VString ''admin'', ''age'' \<mapsto> VNumber 7]"
  using evaluateEdgeRules_and_reduction
      [of "\<lparr>edge_id = ''e1'', source = ''A'', target = ''B'',
        data = Some \<lparr>rules = Some
          [\<lparr>rule_id = ''r1'', condition = ''role'', operator = Is, rule_value = VString ''admin''\<rparr>,
           \<lparr>rule_id = ''r2'', condition = ''age'', operator = Greater_than, rule_value = VNumber 18\<rparr>]\<rparr>\<rparr>"
          "[''role'' \<mapsto> VString ''admin'', ''age'' \<mapsto> VNumber 7]"]
    evaluateEdgeRules_and_reduction
      [of "\<lparr>edge_id = ''e2'', source = ''A'', target = ''B'', data = Some \<lparr>rules = Some []\<rparr>\<rparr>"
          "[''role'' \<mapsto> VString ''admin'', ''age'' \<mapsto> VNumber 7]"]
  by (simp add: edge_rules_def evaluateRule_def get_property_def object_prototype_names_def)

section \<open>Flow evaluation: the claims\<close>

lemmas example_defs = node_of_def plain_edge_def ruled_edge_def role_is_admin_def

lemmas flow_eval = evaluateFlow_def initial_state_def rootNodes_def nodesWithIncoming_def
  bfs_continue bfs_done bfs_body_def nodeEdges_of_filter mark_unvisited_def process_edge_def
  evaluateEdgeRules_def edge_rules_def evaluateRule_def get_property_def
  object_prototype_names_def Let_def

text \<open>
  Claim C1. For edges with pairwise different ids, the keys of \<open>validEdges\<close> are exactly the
  ids of the input edges, one entry for each edge; the entry of an edge is true exactly
  when its source is among the returned reachable nodes and its rules are satisfied by
  the state. An edge whose source is not reached has the entry false.
\<close>

theorem evaluateFlow_validEdges_total:
  assumes "distinct (map edge_id edges)"
  shows "dom (validEdges (evaluateFlow nodes edges state)) = edge_id ` set edges \<and>
         card (dom (validEdges (evaluateFlow nodes edges state))) = length edges \<and>
         (\<forall>e\<in>set edges.
            validEdges (evaluateFlow nodes edges state) (edge_id e) =
              Some (source e \<in> reachableNodes (evaluateFlow nodes edges state)
                    \<and> evaluateEdgeRules e state)) \<and>
         (\<forall>e\<in>set edges.
            source e \<notin> reachableNodes (evaluateFlow nodes edges state) \<longrightarrow>
            validEdges (evaluateFlow nodes edges state) (edge_id e) = Some False)"
proof -
  have d: "dom (validEdges (evaluateFlow nodes edges state)) = edge_id ` set edges"
    using assms by (rule evaluateFlow_validEdges_dom)
  have "card (set (map edge_id edges)) = length (map edge_id edges)"
    using assms by (rule distinct_card)
  then have c: "card (dom (validEdges (evaluateFlow nodes edges state))) = length edges"
    unfolding d by simp
  have e: "validEdges (evaluateFlow nodes edges state) (edge_id e) =
      Some (source e \<in> reachableNodes (evaluateFlow nodes edges state)
            \<and> evaluateEdgeRules e state)" if "e \<in> set edges" for e
    using assms that by (rule evaluateFlow_validEdges_entry)
  from d c e show ?thesis by simp
qed

theorem evaluateFlow_validEdges_total_witness:
  "distinct (map edge_id
     [ruled_edge ''e1'' ''A'' ''B'' [role_is_admin], plain_edge ''e2'' ''X'' ''C'',
      plain_edge ''e3'' ''B'' ''D'']) \<and>
   validEdges (evaluateFlow [node_of ''A'', node_of ''B'', node_of ''C'', node_of ''D'']
     [ruled_edge ''e1'' ''A'' ''B'' [role_is_admin], plain_edge ''e2'' ''X'' ''C'',
      plain_edge ''e3'' ''B'' ''D''] [''role'' \<mapsto> VString ''guest'']) ''e2''
   = Some (''X'' \<in> reachableNodes (evaluateFlow
        [node_of ''A'', node_of ''B'', node_of ''C'', node_of ''D'']
        [ruled_edge ''e1'' ''A'' ''B'' [role_is_admin], plain_edge ''e2'' ''X'' ''C'',
         plain_edge ''e3'' ''B'' ''D''] [''role'' \<mapsto> VString ''guest''])
      \<and> evaluateEdgeRules (plain_edge ''e2'' ''X'' ''C'') [''role'' \<mapsto> VString ''guest'']) \<and>
   evaluateFlow [node_of ''A'', node_of ''B'', node_of ''C'', node_of ''D'']
     [ruled_edge ''e1'' ''A'' ''B'' [role_is_admin], plain_edge ''e2'' ''X'' ''C'',
      plain_edge ''e3'' ''B'' ''D''] [''role'' \<mapsto> VString ''guest'']
   = \<lparr>reachableNodes = {''A''},
      validEdges = [''e1'' \<mapsto> False, ''e2'' \<mapsto> False, ''e3'' \<mapsto> False]\<rparr>"
proof -
  let ?E = "[ruled_edge ''e1'' ''A'' ''B'' [role_is_admin], plain_edge ''e2'' ''X'' ''C'',
      plain_edge ''e3'' ''B'' ''D'']"
  have h: "distinct (map edge_id ?E)" by (simp add: example_defs)
  have m: "plain_edge ''e2'' ''X'' ''C'' \<in> set ?E" by simp
  have ev: "evaluateFlow [node_of ''A'', node_of ''B'', node_of ''C'', node_of ''D''] ?E
      [''role'' \<mapsto> VString ''guest'']
    = \<lparr>reachableNodes = {''A''},
       validEdges = [''e1'' \<mapsto> False, ''e2'' \<mapsto> False, ''e3'' \<mapsto> False]\<rparr>"
    by (simp add: example_defs flow_eval)
  from evaluateFlow_validEdges_total [OF h, of "[node_of ''A'', node_of ''B'', node_of ''C'', node_of ''D'']"
      "[''role'' \<mapsto> VString ''guest'']"] m
  have "validEdges (evaluateFlow [node_of ''A'', node_of ''B'', node_of ''C'', node_of ''D'']
     ?E [''role'' \<mapsto> VString ''guest'']) (edge_id (plain_edge ''e2'' ''X'' ''C''))
   = Some (source (plain_edge ''e2'' ''X'' ''C'') \<in> reachableNodes (evaluateFlow
        [node_of ''A'', node_of ''B'', node_of ''C'', node_of ''D''] ?E
        [''role'' \<mapsto> VString ''guest''])
      \<and> evaluateEdgeRules (plain_edge ''e2'' ''X'' ''C'') [''role'' \<mapsto> VString ''guest''])"
    by blast
  then show ?thesis using h ev by (simp add: plain_edge_def)
qed

lemma not_incoming_iff:
  "node_id n \<notin> nodesWithIncoming edges \<longleftrightarrow> (\<forall>e\<in>set edges. target e \<noteq> node_id n)"
  unfolding nodesWithIncoming_def set_map image_iff by metis

lemma rootNodes_filter:
  "rootNodes nodes edges = filter (\<lambda>n. \<forall>e\<in>set edges. target e \<noteq> node_id n) nodes"
  by (simp add: rootNodes_def not_incoming_iff)

text \<open>
  Claim C2. The root nodes are exactly the nodes that no edge has as its target; they
  seed the queue, and each of them is reachable in every state. Without edges every
  node is reachable, and for the nodes A and B without edges the result is the set of
  both and the empty map.
\<close>

theorem evaluateFlow_roots:
  "set (rootNodes nodes edges) = {n \<in> set nodes. \<forall>e\<in>set edges. target e \<noteq> node_id n} \<and>
   queue (initial_state nodes edges)
     = map node_id (filter (\<lambda>n. \<forall>e\<in>set edges. target e \<noteq> node_id n) nodes) \<and>
   (\<forall>n\<in>set nodes. (\<forall>e\<in>set edges. target e \<noteq> node_id n) \<longrightarrow>
      node_id n \<in> reachableNodes (evaluateFlow nodes edges state)) \<and>
   reachableNodes (evaluateFlow nodes [] state) = node_id ` set nodes \<and>
   evaluateFlow [node_of ''A'', node_of ''B''] [] Map.empty
     = \<lparr>reachableNodes = {''A'', ''B''}, validEdges = Map.empty\<rparr>"
proof -
  note r = rootNodes_filter [of nodes edges]
  have a: "set (rootNodes nodes edges) = {n \<in> set nodes. \<forall>e\<in>set edges. target e \<noteq> node_id n}"
    unfolding r by auto
  have b: "queue (initial_state nodes edges)
     = map node_id (filter (\<lambda>n. \<forall>e\<in>set edges. target e \<noteq> node_id n) nodes)"
    unfolding r [symmetric] by (simp add: initial_state_def)
  have c: "node_id n \<in> reachableNodes (evaluateFlow nodes edges state)"
    if "n \<in> set nodes" "\<forall>e\<in>set edges. target e \<noteq> node_id n" for n
  proof -
    from that a have "node_id n \<in> node_id ` set (rootNodes nodes edges)" by blast
    then show ?thesis by (subst evaluateFlow_reachable_closure) blast
  qed
  have d: "reachableNodes (evaluateFlow nodes [] state) = node_id ` set nodes"
    by (subst evaluateFlow_reachable_closure) (simp add: rootNodes_def nodesWithIncoming_def)
  have e: "evaluateFlow [node_of ''A'', node_of ''B''] [] Map.empty
     = \<lparr>reachableNodes = {''A'', ''B''}, validEdges = Map.empty\<rparr>"
    by (auto simp: example_defs flow_eval)
  from a b c d e show ?thesis by blast
qed

theorem evaluateFlow_roots_witness:
  "node_id (node_of ''A'') \<in> reachableNodes
     (evaluateFlow [node_of ''A'', node_of ''B''] [ruled_edge ''e1'' ''A'' ''B'' [role_is_admin]]
        [''role'' \<mapsto> VString ''guest'']) \<and>
   evaluateFlow [node_of ''A'', node_of ''B''] [ruled_edge ''e1'' ''A'' ''B'' [role_is_admin]]
        [''role'' \<mapsto> VString ''guest'']
     = \<lparr>reachableNodes = {''A''}, validEdges = [''e1'' \<mapsto> False]\<rparr>"
proof -
  have "node_of ''A'' \<in> set [node_of ''A'', node_of ''B'']" by simp
  moreover have "\<forall>e\<in>set [ruled_edge ''e1'' ''A'' ''B'' [role_is_admin]].
      target e \<noteq> node_id (node_of ''A'')"
    by (simp add: example_defs)
  ultimately have "node_id (node_of ''A'') \<in> reachableNodes
     (evaluateFlow [node_of ''A'', node_of ''B''] [ruled_edge ''e1'' ''A'' ''B'' [role_is_admin]]
        [''role'' \<mapsto> VString ''guest''])"
    using evaluateFlow_roots [of "[node_of ''A'', node_of ''B'']"
        "[ruled_edge ''e1'' ''A'' ''B'' [role_is_admin]]" "[''role'' \<mapsto> VString ''guest'']"]
    by blast
  moreover have "evaluateFlow [node_of ''A'', node_of ''B'']
        [ruled_edge ''e1'' ''A'' ''B'' [role_is_admin]] [''role'' \<mapsto> VString ''guest'']
     = \<lparr>reachableNodes = {''A''}, validEdges = [''e1'' \<mapsto> False]\<rparr>"
    by (simp add: example_defs flow_eval)
  ultimately show ?thesis by blast
qed

lemma visited_bfs_body: "visited s \<subseteq> visited (bfs_body edges state s)"
  by (auto simp: bfs_body_def fold_process_edge_visited split: list.splits)

text \<open>
  Claim C5. The loop of \<open>evaluateFlow\<close> ends on every input: after at most as many
  iterations as there are nodes and edges the queue is empty, and the state reached is
  the result of the loop. A node that is visited is only dropped from the queue, and
  visited nodes stay visited, so that no node is expanded twice. On the cycle A to B to
  C to A no node is a root: nothing is reachable and the three edges are false.
\<close>

theorem evaluateFlow_terminates:
  "(\<exists>k \<le> length nodes + length edges.
      queue ((bfs_body edges state ^^ k) (initial_state nodes edges)) = [] \<and>
      bfs edges state (initial_state nodes edges)
        = (bfs_body edges state ^^ k) (initial_state nodes edges)) \<and>
   (\<forall>s n rest. queue s = n # rest \<and> n \<in> visited s \<longrightarrow>
      bfs_body edges state s = s\<lparr>queue := rest\<rparr>) \<and>
   (\<forall>s. visited s \<subseteq> visited (bfs_body edges state s)) \<and>
   evaluateFlow [node_of ''A'', node_of ''B'', node_of ''C'']
     [plain_edge ''e1'' ''A'' ''B'', plain_edge ''e2'' ''B'' ''C'', plain_edge ''e3'' ''C'' ''A'']
     state
   = \<lparr>reachableNodes = {},
      validEdges = [''e1'' \<mapsto> False, ''e2'' \<mapsto> False, ''e3'' \<mapsto> False]\<rparr>"
proof -
  let ?s = "initial_state nodes edges"
  from bfs_iterations [of ?s edges state] obtain k where
    k: "k \<le> length (queue ?s) + length (filter (\<lambda>e. source e \<notin> visited ?s) edges)"
    and fin: "queue ((bfs_body edges state ^^ k) ?s) = []"
    and eq: "bfs edges state ?s = (bfs_body edges state ^^ k) ?s"
    by blast
  have "length (queue ?s) \<le> length nodes"
    by (simp add: initial_state_def rootNodes_def)
  moreover have "length (filter (\<lambda>e. source e \<notin> visited ?s) edges) \<le> length edges"
    by simp
  ultimately have "k \<le> length nodes + length edges" using k by linarith
  with fin eq have a: "\<exists>k \<le> length nodes + length edges.
      queue ((bfs_body edges state ^^ k) ?s) = [] \<and>
      bfs edges state ?s = (bfs_body edges state ^^ k) ?s"
    by blast
  have b: "\<forall>s n rest. queue s = n # rest \<and> n \<in> visited s \<longrightarrow>
      bfs_body edges state s = s\<lparr>queue := rest\<rparr>"
    by (simp add: bfs_body_visited_case)
  have c: "\<forall>s. visited s \<subseteq> visited (bfs_body edges state s)"
    by (simp add: visited_bfs_body)
  have d: "evaluateFlow [node_of ''A'', node_of ''B'', node_of ''C'']
     [plain_edge ''e1'' ''A'' ''B'', plain_edge ''e2'' ''B'' ''C'', plain_edge ''e3'' ''C'' ''A'']
     state
   = \<lparr>reachableNodes = {},
      validEdges = [''e1'' \<mapsto> False, ''e2'' \<mapsto> False, ''e3'' \<mapsto> False]\<rparr>"
    by (simp add: example_defs flow_eval)
  from a b c d show ?thesis by blast
qed

theorem evaluateFlow_terminates_witness:
  "(\<exists>k \<le> 6.
      queue ((bfs_body [plain_edge ''e0'' ''R'' ''A'', plain_edge ''e1'' ''A'' ''B'',
                        plain_edge ''e2'' ''B'' ''A''] Map.empty ^^ k)
        (initial_state [node_of ''R'', node_of ''A'', node_of ''B'']
           [plain_edge ''e0'' ''R'' ''A'', plain_edge ''e1'' ''A'' ''B'',
            plain_edge ''e2'' ''B'' ''A''])) = []) \<and>
   evaluateFlow [node_of ''R'', node_of ''A'', node_of ''B'']
     [plain_edge ''e0'' ''R'' ''A'', plain_edge ''e1'' ''A'' ''B'', plain_edge ''e2'' ''B'' ''A'']
     Map.empty
   = \<lparr>reachableNodes = {''R'', ''A'', ''B''},
      validEdges = [''e0'' \<mapsto> True, ''e1'' \<mapsto> True, ''e2'' \<mapsto> True]\<rparr>"
proof -
  let ?N = "[node_of ''R'', node_of ''A'', node_of ''B'']"
  let ?E = "[plain_edge ''e0'' ''R'' ''A'', plain_edge ''e1'' ''A'' ''B'',
             plain_edge ''e2'' ''B'' ''A'']"
  have ev: "evaluateFlow ?N ?E Map.empty
   = \<lparr>reachableNodes = {''R'', ''A'', ''B''},
      validEdges = [''e0'' \<mapsto> True, ''e1'' \<mapsto> True, ''e2'' \<mapsto> True]\<rparr>"
    by (auto simp: example_defs flow_eval)
  from evaluateFlow_terminates [of ?N ?E Map.empty] obtain k where
    "k \<le> length ?N + length ?E"
    "queue ((bfs_body ?E Map.empty ^^ k) (initial_state ?N ?E)) = []"
    by blast
  then have "\<exists>k \<le> 6. queue ((bfs_body ?E Map.empty ^^ k) (initial_state ?N ?E)) = []"
    by (intro exI [of _ k]) simp
  with ev show ?thesis by blast
qed

text \<open>
  Claim C9, amended: for edges with pairwise different ids, the reachable nodes of the
  result are the ids of the root nodes together with the targets of the edges whose
  entry in \<open>validEdges\<close> is true, and nothing else.
\<close>

theorem evaluateFlow_reachable_characterisation:
  assumes "distinct (map edge_id edges)"
  shows "reachableNodes (evaluateFlow nodes edges state) =
     {node_id n |n. n \<in> set nodes \<and> (\<forall>e\<in>set edges. target e \<noteq> node_id n)} \<union>
     {target e |e. e \<in> set edges \<and>
        validEdges (evaluateFlow nodes edges state) (edge_id e) = Some True}"
proof -
  let ?r = "evaluateFlow nodes edges state"
  have roots: "node_id ` set (rootNodes nodes edges)
      = {node_id n |n. n \<in> set nodes \<and> (\<forall>e\<in>set edges. target e \<noteq> node_id n)}"
    unfolding rootNodes_filter by auto
  have "validEdges ?r (edge_id e) = Some True
      \<longleftrightarrow> source e \<in> reachableNodes ?r \<and> evaluateEdgeRules e state"
    if "e \<in> set edges" for e
    using evaluateFlow_validEdges_entry [OF assms that, of nodes state] by simp
  then have valid: "{target e |e. e \<in> set edges \<and> source e \<in> reachableNodes ?r
           \<and> evaluateEdgeRules e state}
      = {target e |e. e \<in> set edges \<and> validEdges ?r (edge_id e) = Some True}"
    by blast
  have "reachableNodes ?r = node_id ` set (rootNodes nodes edges) \<union>
      {target e |e. e \<in> set edges \<and> source e \<in> reachableNodes ?r
         \<and> evaluateEdgeRules e state}"
    by (rule evaluateFlow_reachable_closure)
  then show ?thesis unfolding roots valid .
qed

theorem evaluateFlow_reachable_characterisation_witness:
  "distinct (map edge_id
     [ruled_edge ''e1'' ''A'' ''B'' [role_is_admin], plain_edge ''e2'' ''B'' ''C'']) \<and>
   reachableNodes (evaluateFlow [node_of ''A'', node_of ''B'', node_of ''C'']
     [ruled_edge ''e1'' ''A'' ''B'' [role_is_admin], plain_edge ''e2'' ''B'' ''C'']
     [''role'' \<mapsto> VString ''admin'']) =
     {node_id n |n. n \<in> set [node_of ''A'', node_of ''B'', node_of ''C''] \<and>
        (\<forall>e\<in>set [ruled_edge ''e1'' ''A'' ''B'' [role_is_admin], plain_edge ''e2'' ''B'' ''C''].
           target e \<noteq> node_id n)} \<union>
     {target e |e. e \<in> set [ruled_edge ''e1'' ''A'' ''B'' [role_is_admin],
                              plain_edge ''e2'' ''B'' ''C''] \<and>
        validEdges (evaluateFlow [node_of ''A'', node_of ''B'', node_of ''C'']
          [ruled_edge ''e1'' ''A'' ''B'' [role_is_admin], plain_edge ''e2'' ''B'' ''C'']
          [''role'' \<mapsto> VString ''admin'']) (edge_id e) = Some True} \<and>
   evaluateFlow [node_of ''A'', node_of ''B'', node_of ''C'']
     [ruled_edge ''e1'' ''A'' ''B'' [role_is_admin], plain_edge ''e2'' ''B'' ''C'']
     [''role'' \<mapsto> VString ''admin'']
   = \<lparr>reachableNodes = {''A'', ''B'', ''C''}, validEdges = [''e1'' \<mapsto> True, ''e2'' \<mapsto> True]\<rparr>"
proof -
  have h: "distinct (map edge_id
     [ruled_edge ''e1'' ''A'' ''B'' [role_is_admin], plain_edge ''e2'' ''B'' ''C''])"
    by (simp add: example_defs)
  have ev: "evaluateFlow [node_of ''A'', node_of ''B'', node_of ''C'']
     [ruled_edge ''e1'' ''A'' ''B'' [role_is_admin], plain_edge ''e2'' ''B'' ''C'']
     [''role'' \<mapsto> VString ''admin'']
   = \<lparr>reachableNodes = {''A'', ''B'', ''C''}, validEdges = [''e1'' \<mapsto> True, ''e2'' \<mapsto> True]\<rparr>"
    by (auto simp: example_defs flow_eval)
  from h ev evaluateFlow_reachable_characterisation [OF h,
      of "[node_of ''A'', node_of ''B'', node_of ''C'']" "[''role'' \<mapsto> VString ''admin'']"]
  show ?thesis by blast
qed

text \<open>
  Claim C9, as it is written for every result: it fails when two edges share an id.
  Both edges leave the root A under the id e1; the first has no rules and makes B
  reachable, the second fails its rule and overwrites the entry of e1 with false. So B
  is reachable, but it is not a root and no edge is mapped to true.
\<close>

theorem evaluateFlow_reachable_duplicate_id_counterexample:
  "evaluateFlow [node_of ''A'', node_of ''B'', node_of ''C'']
     [plain_edge ''e1'' ''A'' ''B'', ruled_edge ''e1'' ''A'' ''C'' [role_is_admin]]
     [''role'' \<mapsto> VString ''guest'']
   = \<lparr>reachableNodes = {''A'', ''B''}, validEdges = [''e1'' \<mapsto> False]\<rparr> \<and>
   ''B'' \<notin> node_id ` set (rootNodes [node_of ''A'', node_of ''B'', node_of ''C'']
     [plain_edge ''e1'' ''A'' ''B'', ruled_edge ''e1'' ''A'' ''C'' [role_is_admin]]) \<and>
   edge_id (plain_edge ''e1'' ''A'' ''B'') = ''e1'' \<and>
   edge_id (ruled_edge ''e1'' ''A'' ''C'' [role_is_admin]) = ''e1''"
  by (auto simp: example_defs flow_eval)

text \<open>
  Claim C10. An edge without \<^verbatim>\<open>data\<close>, or without \<^verbatim>\<open>data.rules\<close>, is valid in every state,
  as the same edge with the empty rule list is; replacing such edges by their
  counterparts with an empty rule list does not change the result of \<open>evaluateFlow\<close>, and
  the entry of such an edge in \<open>validEdges\<close> says whether its source is reachable.
\<close>

theorem evaluateEdgeRules_absent_rules:
  assumes "rules_absent edge"
  shows "(data edge = None \<or> (\<exists>d. data edge = Some d \<and> rules d = None)) \<and>
         evaluateEdgeRules edge state \<and>
         evaluateEdgeRules edge state
           = evaluateEdgeRules (edge\<lparr>data := Some \<lparr>rules = Some []\<rparr>\<rparr>) state \<and>
         with_empty_rules edge = edge\<lparr>data := Some \<lparr>rules = Some []\<rparr>\<rparr> \<and>
         (\<forall>nodes edges.
            evaluateFlow nodes (map with_empty_rules edges) state
              = evaluateFlow nodes edges state) \<and>
         (\<forall>nodes edges. distinct (map edge_id edges) \<and> edge \<in> set edges \<longrightarrow>
            validEdges (evaluateFlow nodes edges state) (edge_id edge)
              = Some (source edge \<in> reachableNodes (evaluateFlow nodes edges state)))"
proof -
  have a: "data edge = None \<or> (\<exists>d. data edge = Some d \<and> rules d = None)"
    using assms by (auto simp: rules_absent_def split: option.splits)
  have b: "evaluateEdgeRules edge state"
    using assms by (simp add: evaluateEdgeRules_def edge_rules_absent)
  have c: "with_empty_rules edge = edge\<lparr>data := Some \<lparr>rules = Some []\<rparr>\<rparr>"
    using assms by (simp add: with_empty_rules_def)
  have d: "evaluateEdgeRules edge state
      = evaluateEdgeRules (edge\<lparr>data := Some \<lparr>rules = Some []\<rparr>\<rparr>) state"
    using evaluateEdgeRules_with_empty_rules [of edge state] c by simp
  have e: "validEdges (evaluateFlow nodes edges state) (edge_id edge)
      = Some (source edge \<in> reachableNodes (evaluateFlow nodes edges state))"
    if "distinct (map edge_id edges)" "edge \<in> set edges" for nodes edges
    using evaluateFlow_validEdges_entry [OF that, of nodes state] b by simp
  from a b c d e show ?thesis
    by (simp add: evaluateFlow_with_empty_rules)
qed

theorem evaluateEdgeRules_absent_rules_witness:
  "rules_absent (plain_edge ''e1'' ''A'' ''B'') \<and>
   rules_absent \<lparr>edge_id = ''e2'', source = ''A'', target = ''B'', data = Some \<lparr>rules = None\<rparr>\<rparr> \<and>
   evaluateEdgeRules (plain_edge ''e1'' ''A'' ''B'') [''role'' \<mapsto> VString ''guest''] \<and>
   evaluateEdgeRules \<lparr>edge_id = ''e2'', source = ''A'', target = ''B'', data = Some \<lparr>rules = None\<rparr>\<rparr>
     [''role'' \<mapsto> VString ''guest'']"
proof -
  have h1: "rules_absent (plain_edge ''e1'' ''A'' ''B'')"
    by (simp add: rules_absent_def plain_edge_def)
  have h2: "rules_absent
      \<lparr>edge_id = ''e2'', source = ''A'', target = ''B'', data = Some \<lparr>rules = None\<rparr>\<rparr>"
    by (simp add: rules_absent_def)
  from h1 h2 evaluateEdgeRules_absent_rules [OF h1, of "[''role'' \<mapsto> VString ''guest'']"]
    evaluateEdgeRules_absent_rules [OF h2, of "[''role'' \<mapsto> VString ''guest'']"]
  show ?thesis by blast
qed

section \<open>Condition discovery: the claim\<close>

lemmas discover_eval = discoverConditions_def conditionMap_def edge_rules_def
  add_rule_value_def set_add_def make_schema_def array_sort_def infer_type_def

lemmas runtime_eval = decimal_def nat_to_string.simps digit_char_def
  collate_def collate_key_def lower_char_def is_upper_def

text \<open>
  Claim C6, amended. For every comparator \<open>lc\<close> that is a total preorder, as the
  \<^verbatim>\<open>localeCompare\<close> of the runtime is, and every number formatting \<open>numstr\<close>:
  \<open>discoverConditions\<close> returns one entry for each condition name that occurs in a rule of
  some edge, in the order of \<open>lc\<close> on the names. The options of an entry are the values of
  the rules with that name, without duplicates, in the order of \<open>lc\<close> on their string
  forms, not in numeric order. The type is boolean when all options are booleans,
  otherwise number when all are numbers, otherwise enum. For the values 30, 25 and the
  string unknown, when 25 and 30 have these string forms and the comparator puts 25
  before 30 and both before unknown, the entry is an enum whose options are the number
  25, the number 30 and the string unknown, in this order; only their string forms are
  the strings 25, 30, unknown.
\<close>

theorem discoverConditions_schema:
  assumes total: "\<forall>a b. lc a b \<le> 0 \<or> lc b a \<le> 0"
    and trans: "\<forall>a b c. lc a b \<le> 0 \<and> lc b c \<le> 0 \<longrightarrow> lc a c \<le> 0"
  shows "sorted_wrt (\<lambda>c d. lc (name c) (name d) \<le> 0) (discoverConditions lc numstr edges) \<and>
   distinct (map name (discoverConditions lc numstr edges)) \<and>
   set (map name (discoverConditions lc numstr edges)) = condition ` set (all_rules edges) \<and>
   (\<forall>c\<in>set (discoverConditions lc numstr edges).
      distinct (options c) \<and>
      set (options c) = {rule_value r |r. r \<in> set (all_rules edges) \<and> condition r = name c} \<and>
      sorted_wrt (\<lambda>a b. lc (String_js numstr a) (String_js numstr b) \<le> 0) (options c) \<and>
      ctype c =
        (if \<forall>v\<in>set (options c). typeof v = ''boolean'' then Boolean
         else if \<forall>v\<in>set (options c). typeof v = ''number'' then Number else Enum)) \<and>
   (numstr 25 = ''25'' \<and> numstr 30 = ''30'' \<and>
    lc ''25'' ''unknown'' \<le> 0 \<and> lc ''30'' ''unknown'' \<le> 0 \<and> 0 < lc ''30'' ''25'' \<longrightarrow>
      discoverConditions lc numstr
        [ruled_edge ''e1'' ''A'' ''B''
           [rule_on ''age'' (VNumber 30), rule_on ''age'' (VNumber 25),
            rule_on ''age'' (VString ''unknown'')]]
        = [\<lparr>name = ''age'', ctype = Enum,
            options = [VNumber 25, VNumber 30, VString ''unknown'']\<rparr>] \<and>
      map (String_js numstr) [VNumber 25, VNumber 30, VString ''unknown'']
        = [''25'', ''30'', ''unknown''])"
proof -
  have ex: "numstr 25 = ''25'' \<and> numstr 30 = ''30'' \<and>
    lc ''25'' ''unknown'' \<le> 0 \<and> lc ''30'' ''unknown'' \<le> 0 \<and> 0 < lc ''30'' ''25'' \<longrightarrow>
      discoverConditions lc numstr
        [ruled_edge ''e1'' ''A'' ''B''
           [rule_on ''age'' (VNumber 30), rule_on ''age'' (VNumber 25),
            rule_on ''age'' (VString ''unknown'')]]
        = [\<lparr>name = ''age'', ctype = Enum,
            options = [VNumber 25, VNumber 30, VString ''unknown'']\<rparr>] \<and>
      map (String_js numstr) [VNumber 25, VNumber 30, VString ''unknown'']
        = [''25'', ''30'', ''unknown'']"
    by (simp add: discover_eval ruled_edge_def rule_on_def)
  have entry: "\<forall>c\<in>set (discoverConditions lc numstr edges).
      distinct (options c) \<and>
      set (options c) = {rule_value r |r. r \<in> set (all_rules edges) \<and> condition r = name c} \<and>
      sorted_wrt (\<lambda>a b. lc (String_js numstr a) (String_js numstr b) \<le> 0) (options c) \<and>
      ctype c =
        (if \<forall>v\<in>set (options c). typeof v = ''boolean'' then Boolean
         else if \<forall>v\<in>set (options c). typeof v = ''number'' then Number else Enum)"
  proof (intro ballI conjI)
    fix c assume c: "c \<in> set (discoverConditions lc numstr edges)"
    show "distinct (options c)" using c by (rule discoverConditions_entry(1))
    show "set (options c)
        = {rule_value r |r. r \<in> set (all_rules edges) \<and> condition r = name c}"
      using c by (rule discoverConditions_entry(2))
    show "sorted_wrt (\<lambda>a b. lc (String_js numstr a) (String_js numstr b) \<le> 0) (options c)"
      using c total trans by (rule discoverConditions_entry(4))
    show "ctype c =
        (if \<forall>v\<in>set (options c). typeof v = ''boolean'' then Boolean
         else if \<forall>v\<in>set (options c). typeof v = ''number'' then Number else Enum)"
      using c by (rule discoverConditions_entry(3))
  qed
  show ?thesis
    by (intro conjI discoverConditions_sorted [OF total trans] discoverConditions_names entry ex)
qed

theorem discoverConditions_schema_witness:
  "(\<forall>a b. collate a b \<le> 0 \<or> collate b a \<le> 0) \<and>
   (\<forall>a b c. 0 < collate a b \<or> 0 < collate b c \<or> collate a c \<le> 0) \<and>
   discoverConditions collate decimal
     [ruled_edge ''e1'' ''A'' ''B''
        [rule_on ''isAdmin'' (VBoolean True), rule_on ''B'' (VNumber 25),
         rule_on ''a'' (VString ''guest'')],
      plain_edge ''e2'' ''B'' ''C'',
      ruled_edge ''e3'' ''A'' ''C''
        [rule_on ''B'' (VNumber 100), rule_on ''is_author'' (VBoolean False),
         rule_on ''b'' (VNumber 7), rule_on ''A'' (VString ''x''),
         rule_on ''a'' (VNumber 3), rule_on ''B'' (VNumber 25)]]
     = [\<lparr>name = ''a'', ctype = Enum, options = [VNumber 3, VString ''guest'']\<rparr>,
        \<lparr>name = ''A'', ctype = Enum, options = [VString ''x'']\<rparr>,
        \<lparr>name = ''b'', ctype = Number, options = [VNumber 7]\<rparr>,
        \<lparr>name = ''B'', ctype = Number, options = [VNumber 100, VNumber 25]\<rparr>,
        \<lparr>name = ''is_author'', ctype = Boolean, options = [VBoolean False]\<rparr>,
        \<lparr>name = ''isAdmin'', ctype = Boolean, options = [VBoolean True]\<rparr>] \<and>
   sorted_wrt (\<lambda>c d. collate (name c) (name d) \<le> 0)
     (discoverConditions collate decimal
       [ruled_edge ''e1'' ''A'' ''B''
          [rule_on ''isAdmin'' (VBoolean True), rule_on ''B'' (VNumber 25),
           rule_on ''a'' (VString ''guest'')],
        plain_edge ''e2'' ''B'' ''C'',
        ruled_edge ''e3'' ''A'' ''C''
          [rule_on ''B'' (VNumber 100), rule_on ''is_author'' (VBoolean False),
           rule_on ''b'' (VNumber 7), rule_on ''A'' (VString ''x''),
           rule_on ''a'' (VNumber 3), rule_on ''B'' (VNumber 25)]]) \<and>
   discoverConditions collate decimal
     [ruled_edge ''e1'' ''A'' ''B''
        [rule_on ''age'' (VNumber 30), rule_on ''age'' (VNumber 25),
         rule_on ''age'' (VString ''unknown'')]]
     = [\<lparr>name = ''age'', ctype = Enum,
         options = [VNumber 25, VNumber 30, VString ''unknown'']\<rparr>]"
proof -
  let ?E = "[ruled_edge ''e1'' ''A'' ''B''
        [rule_on ''isAdmin'' (VBoolean True), rule_on ''B'' (VNumber 25),
         rule_on ''a'' (VString ''guest'')],
      plain_edge ''e2'' ''B'' ''C'',
      ruled_edge ''e3'' ''A'' ''C''
        [rule_on ''B'' (VNumber 100), rule_on ''is_author'' (VBoolean False),
         rule_on ''b'' (VNumber 7), rule_on ''A'' (VString ''x''),
         rule_on ''a'' (VNumber 3), rule_on ''B'' (VNumber 25)]]"
  note inst = discoverConditions_schema [OF collate_total collate_trans, of decimal]
  have ev: "discoverConditions collate decimal ?E
     = [\<lparr>name = ''a'', ctype = Enum, options = [VNumber 3, VString ''guest'']\<rparr>,
        \<lparr>name = ''A'', ctype = Enum, options = [VString ''x'']\<rparr>,
        \<lparr>name = ''b'', ctype = Number, options = [VNumber 7]\<rparr>,
        \<lparr>name = ''B'', ctype = Number, options = [VNumber 100, VNumber 25]\<rparr>,
        \<lparr>name = ''is_author'', ctype = Boolean, options = [VBoolean False]\<rparr>,
        \<lparr>name = ''isAdmin'', ctype = Boolean, options = [VBoolean True]\<rparr>]"
    by (simp add: discover_eval runtime_eval ruled_edge_def plain_edge_def rule_on_def)
  have s: "sorted_wrt (\<lambda>c d. collate (name c) (name d) \<le> 0)
      (discoverConditions collate decimal ?E)"
    using inst [of ?E] by (rule conjunct1)
  have h: "decimal 25 = ''25'' \<and> decimal 30 = ''30'' \<and>
      collate ''25'' ''unknown'' \<le> 0 \<and> collate ''30'' ''unknown'' \<le> 0 \<and>
      0 < collate ''30'' ''25''"
    by (simp add: runtime_eval)
  with inst [of "[]"] have age: "discoverConditions collate decimal
     [ruled_edge ''e1'' ''A'' ''B''
        [rule_on ''age'' (VNumber 30), rule_on ''age'' (VNumber 25),
         rule_on ''age'' (VString ''unknown'')]]
     = [\<lparr>name = ''age'', ctype = Enum,
         options = [VNumber 25, VNumber 30, VString ''unknown'']\<rparr>]"
    by blast
  have tr: "\<forall>a b c. 0 < collate a b \<or> 0 < collate b c \<or> collate a c \<le> 0"
    using collate_trans by (metis not_le)
  show ?thesis
    by (intro conjI collate_total tr ev s age)
qed

text \<open>
  Claim C6, as its example is written: the options of the entry for the values 30, 25
  and the string unknown would be the three strings 25, 30 and unknown. They are not:
  the sort compares string forms but keeps the values, so the two numbers stay numbers.
\<close>

theorem discoverConditions_options_counterexample:
  "discoverConditions collate decimal
     [ruled_edge ''e1'' ''A'' ''B''
        [rule_on ''age'' (VNumber 30), rule_on ''age'' (VNumber 25),
         rule_on ''age'' (VString ''unknown'')]]
     \<noteq> [\<lparr>name = ''age'', ctype = Enum,
          options = [VString ''25'', VString ''30'', VString ''unknown'']\<rparr>]"
  by (simp add: discover_eval runtime_eval ruled_edge_def rule_on_def)

section \<open>Ancestor trace: the claim\<close>

lemmas trace_eval = traceHighlight_def trace_continue trace_done trace_body_def
  incoming_of_filter trace_edge_def Let_def

text \<open>
  Claim C7. With trace mode on and a hovered node, the highlighted nodes are the nodes
  from which the hovered node can be reached along edges (the node itself included),
  and the highlighted edges are the edges whose target is such a node. The result
  depends on the edges only through their ids, sources and targets, not through their
  rules, and the simulation state is not an input. A node without incoming edges gives
  itself and no edge. On the chain A to B to C to D, tracing from D gives the four
  nodes and the three edges, and tracing from A gives A alone.
\<close>

theorem traceHighlight_closure:
  assumes "focus \<noteq> []"
  shows "highlightedNodes (traceHighlight True (Some focus) edges)
           = {n. (n, focus) \<in> (edge_rel edges)\<^sup>*} \<and>
         highlightedEdges (traceHighlight True (Some focus) edges)
           = {edge_id e |e. e \<in> set edges \<and> (target e, focus) \<in> (edge_rel edges)\<^sup>*} \<and>
         (\<forall>edges'. map edge_shape edges' = map edge_shape edges \<longrightarrow>
            traceHighlight True (Some focus) edges' = traceHighlight True (Some focus) edges) \<and>
         ((\<forall>e\<in>set edges. target e \<noteq> focus) \<longrightarrow>
            traceHighlight True (Some focus) edges
              = \<lparr>highlightedNodes = {focus}, highlightedEdges = {}\<rparr>) \<and>
         traceHighlight True (Some ''D'')
           [plain_edge ''e1'' ''A'' ''B'', ruled_edge ''e2'' ''B'' ''C'' [role_is_admin],
            plain_edge ''e3'' ''C'' ''D'']
           = \<lparr>highlightedNodes = {''A'', ''B'', ''C'', ''D''},
              highlightedEdges = {''e1'', ''e2'', ''e3''}\<rparr> \<and>
         traceHighlight True (Some ''A'')
           [plain_edge ''e1'' ''A'' ''B'', ruled_edge ''e2'' ''B'' ''C'' [role_is_admin],
            plain_edge ''e3'' ''C'' ''D'']
           = \<lparr>highlightedNodes = {''A''}, highlightedEdges = {}\<rparr>"
proof -
  have a: "highlightedNodes (traceHighlight True (Some focus) edges)
      = {n. (n, focus) \<in> (edge_rel edges)\<^sup>*}"
    by (simp add: traceHighlight_sets [OF assms])
  have b: "highlightedEdges (traceHighlight True (Some focus) edges)
      = {edge_id e |e. e \<in> set edges \<and> (target e, focus) \<in> (edge_rel edges)\<^sup>*}"
    by (simp add: traceHighlight_sets [OF assms])
  have c: "\<forall>edges'. map edge_shape edges' = map edge_shape edges \<longrightarrow>
      traceHighlight True (Some focus) edges' = traceHighlight True (Some focus) edges"
    using traceHighlight_shape [OF assms] by blast
  have d: "(\<forall>e\<in>set edges. target e \<noteq> focus) \<longrightarrow>
      traceHighlight True (Some focus) edges
        = \<lparr>highlightedNodes = {focus}, highlightedEdges = {}\<rparr>"
    using traceHighlight_root [OF assms] by blast
  have e: "traceHighlight True (Some ''D'')
     [plain_edge ''e1'' ''A'' ''B'', ruled_edge ''e2'' ''B'' ''C'' [role_is_admin],
      plain_edge ''e3'' ''C'' ''D'']
     = \<lparr>highlightedNodes = {''A'', ''B'', ''C'', ''D''},
        highlightedEdges = {''e1'', ''e2'', ''e3''}\<rparr>"
    by (auto simp: trace_eval example_defs)
  have f: "traceHighlight True (Some ''A'')
     [plain_edge ''e1'' ''A'' ''B'', ruled_edge ''e2'' ''B'' ''C'' [role_is_admin],
      plain_edge ''e3'' ''C'' ''D'']
     = \<lparr>highlightedNodes = {''A''}, highlightedEdges = {}\<rparr>"
    by (simp add: trace_eval example_defs)
  show ?thesis by (intro conjI a b c d e f)
qed

theorem traceHighlight_closure_witness:
  "''C'' \<noteq> [] \<and>
   traceHighlight True (Some ''C'')
     [ruled_edge ''e1'' ''A'' ''C'' [role_is_admin], plain_edge ''e2'' ''B'' ''C'',
      plain_edge ''e3'' ''C'' ''A'', plain_edge ''e4'' ''C'' ''D'']
   = traceHighlight True (Some ''C'')
     [plain_edge ''e1'' ''A'' ''C'', plain_edge ''e2'' ''B'' ''C'',
      plain_edge ''e3'' ''C'' ''A'', plain_edge ''e4'' ''C'' ''D''] \<and>
   traceHighlight True (Some ''C'')
     [plain_edge ''e1'' ''A'' ''C'', plain_edge ''e2'' ''B'' ''C'',
      plain_edge ''e3'' ''C'' ''A'', plain_edge ''e4'' ''C'' ''D'']
   = \<lparr>highlightedNodes = {''A'', ''B'', ''C''}, highlightedEdges = {''e1'', ''e2'', ''e3''}\<rparr>"
proof -
  let ?E = "[plain_edge ''e1'' ''A'' ''C'', plain_edge ''e2'' ''B'' ''C'',
      plain_edge ''e3'' ''C'' ''A'', plain_edge ''e4'' ''C'' ''D'']"
  let ?E' = "[ruled_edge ''e1'' ''A'' ''C'' [role_is_admin], plain_edge ''e2'' ''B'' ''C'',
      plain_edge ''e3'' ''C'' ''A'', plain_edge ''e4'' ''C'' ''D'']"
  have h: "''C'' \<noteq> []" by simp
  have sh: "map edge_shape ?E' = map edge_shape ?E"
    by (simp add: edge_shape_def example_defs)
  have ev: "traceHighlight True (Some ''C'') ?E
     = \<lparr>highlightedNodes = {''A'', ''B'', ''C''}, highlightedEdges = {''e1'', ''e2'', ''e3''}\<rparr>"
    by (auto simp: trace_eval example_defs)
  from traceHighlight_closure [OF h, of ?E] sh
  have "traceHighlight True (Some ''C'') ?E' = traceHighlight True (Some ''C'') ?E"
    by blast
  with h ev show ?thesis by (intro conjI)
qed

end
